theory Spec2Isabelle
  imports Main
begin

section \<open>Raw storage, element types and outcomes\<close>

text \<open>
  A slot of a raw block either is uninitialised memory or holds a live object of the
  element type \<open>T\<close>. A block is the list of its slots.
\<close>

datatype 'a slot = Raw | Live 'a

text \<open>
  What can leave a member function besides a normal return: \<open>std::bad_alloc\<close> from
  \<open>operator new\<close>, or an exception of an operation of the element type.
\<close>

datatype exn = BadAlloc | ElemExn

text \<open>
  The outcome of a call: a normal return with its result, an exception that leaves the
  state given with it behind, or undefined behaviour (a failed \<open>assert\<close>, an access outside
  a block, construction over a live object, use of an object that is not alive).
\<close>

datatype ('r, 's) outcome = Ok 'r | Throws exn 's | Undefined

text \<open>
  The template parameter \<open>T\<close>. The two traits are the ones \<open>Reserve\<close> and \<open>Realocate\<close>
  test with \<open>if constexpr\<close>. Whether an operation of \<open>T\<close> throws is a function of the values it
  is applied to; an operation that does not throw has value semantics (a copy equals its
  source, a move gives the target the value of the source and leaves \<open>moved_from\<close> of it
  behind), and one that throws leaves its operands as they were.
\<close>

record 'a elem_type =
  nothrow_move_constructible :: bool
  copy_constructible :: bool
  value_init :: "'a option"
  copy_ctor_throws :: "'a \<Rightarrow> bool"
  move_ctor_throws :: "'a \<Rightarrow> bool"
  copy_assign_throws :: "'a \<Rightarrow> 'a \<Rightarrow> bool"
  move_assign_throws :: "'a \<Rightarrow> 'a \<Rightarrow> bool"
  moved_from :: "'a \<Rightarrow> 'a"

text \<open>\<open>T(const T&)\<close>: the new object, or \<open>None\<close> when the constructor throws.\<close>

definition copy_construct :: "'a elem_type \<Rightarrow> 'a \<Rightarrow> 'a option" where
  "copy_construct T x = (if copy_ctor_throws T x then None else Some x)"

text \<open>
  \<open>T(T&&)\<close>: the new object and what is left in the source. A move constructor that is
  \<open>noexcept\<close> lets no exception out.
\<close>

definition move_construct :: "'a elem_type \<Rightarrow> 'a \<Rightarrow> ('a \<times> 'a) option" where
  "move_construct T x =
     (if \<not> nothrow_move_constructible T \<and> move_ctor_throws T x then None
      else Some (x, moved_from T x))"

text \<open>\<open>cur = x\<close> by copy: the new value of the target.\<close>

definition copy_assign :: "'a elem_type \<Rightarrow> 'a \<Rightarrow> 'a \<Rightarrow> 'a option" where
  "copy_assign T cur x = (if copy_assign_throws T cur x then None else Some x)"

text \<open>\<open>cur = std::move(x)\<close>: the new value of the target and what is left in the source.\<close>

definition move_assign :: "'a elem_type \<Rightarrow> 'a \<Rightarrow> 'a \<Rightarrow> ('a \<times> 'a) option" where
  "move_assign T cur x =
     (if move_assign_throws T cur x then None else Some (x, moved_from T x))"

subsection \<open>Access to the slots of a block\<close>

text \<open>Reading the object in slot \<open>i\<close>; \<open>None\<close> is undefined behaviour.\<close>

definition load :: "'a slot list \<Rightarrow> nat \<Rightarrow> 'a option" where
  "load buf i =
     (if i < length buf then (case buf ! i of Live x \<Rightarrow> Some x | Raw \<Rightarrow> None) else None)"

text \<open>\<open>std::construct_at\<close> with the value the constructor produced: the slot must be raw memory
  of the block.\<close>

definition construct_at :: "'a slot list \<Rightarrow> nat \<Rightarrow> 'a \<Rightarrow> 'a slot list option" where
  "construct_at buf i x =
     (if i < length buf \<and> buf ! i = Raw then Some (buf[i := Live x]) else None)"

text \<open>\<open>std::destroy_at\<close>: the slot must hold a live object.\<close>

definition destroy_at :: "'a slot list \<Rightarrow> nat \<Rightarrow> 'a slot list option" where
  "destroy_at buf i =
     (if i < length buf then (case buf ! i of Live x \<Rightarrow> Some (buf[i := Raw]) | Raw \<Rightarrow> None)
      else None)"

subsection \<open>The algorithms of the standard library the container calls\<close>

text \<open>\<open>std::destroy_n(first, n)\<close> and \<open>std::destroy(first, first + n)\<close>.\<close>

fun destroy_n :: "'a slot list \<Rightarrow> nat \<Rightarrow> nat \<Rightarrow> 'a slot list option" where
  "destroy_n buf first 0 = Some buf"
| "destroy_n buf first (Suc n) =
     (case destroy_at buf first of
        None \<Rightarrow> None
      | Some buf' \<Rightarrow> destroy_n buf' (Suc first) n)"

text \<open>
  \<open>std::uninitialized_value_construct_n(first, n)\<close>: when a constructor throws, the objects
  already constructed are destroyed and the exception goes on.
\<close>

fun uninitialized_value_construct_n ::
  "'a elem_type \<Rightarrow> 'a slot list \<Rightarrow> nat \<Rightarrow> nat \<Rightarrow> ('a slot list, 'a slot list) outcome" where
  "uninitialized_value_construct_n T buf first 0 = Ok buf"
| "uninitialized_value_construct_n T buf first (Suc n) =
     (case value_init T of
        None \<Rightarrow> Throws ElemExn buf
      | Some x \<Rightarrow>
          (case construct_at buf first x of
             None \<Rightarrow> Undefined
           | Some buf' \<Rightarrow>
               (case uninitialized_value_construct_n T buf' (Suc first) n of
                  Ok r \<Rightarrow> Ok r
                | Throws e b \<Rightarrow>
                    (case destroy_at b first of
                       None \<Rightarrow> Undefined
                     | Some b' \<Rightarrow> Throws e b')
                | Undefined \<Rightarrow> Undefined)))"

text \<open>
  \<open>std::uninitialized_copy_n(src + first, n, dst + d)\<close>, and \<open>std::uninitialized_copy\<close> of a
  range of \<open>n\<close> objects: copy construction into raw memory of another block, undone when a
  copy throws.
\<close>

fun uninitialized_copy_n ::
  "'a elem_type \<Rightarrow> 'a slot list \<Rightarrow> nat \<Rightarrow> nat \<Rightarrow> 'a slot list \<Rightarrow> nat
     \<Rightarrow> ('a slot list, 'a slot list) outcome" where
  "uninitialized_copy_n T src first 0 dst d = Ok dst"
| "uninitialized_copy_n T src first (Suc n) dst d =
     (case load src first of
        None \<Rightarrow> Undefined
      | Some x \<Rightarrow>
          (case copy_construct T x of
             None \<Rightarrow> Throws ElemExn dst
           | Some y \<Rightarrow>
               (case construct_at dst d y of
                  None \<Rightarrow> Undefined
                | Some dst' \<Rightarrow>
                    (case uninitialized_copy_n T src (Suc first) n dst' (Suc d) of
                       Ok r \<Rightarrow> Ok r
                     | Throws e b \<Rightarrow>
                         (case destroy_at b d of
                            None \<Rightarrow> Undefined
                          | Some b' \<Rightarrow> Throws e b')
                     | Undefined \<Rightarrow> Undefined))))"

text \<open>
  \<open>std::uninitialized_move_n\<close> and \<open>std::uninitialized_move\<close>: as above by move construction.
  The sources stay alive, in their moved-from state; when a move throws, the objects
  constructed in the target are destroyed, the sources already moved from stay so.
\<close>

fun uninitialized_move_n ::
  "'a elem_type \<Rightarrow> 'a slot list \<Rightarrow> nat \<Rightarrow> nat \<Rightarrow> 'a slot list \<Rightarrow> nat
     \<Rightarrow> ('a slot list \<times> 'a slot list, 'a slot list \<times> 'a slot list) outcome" where
  "uninitialized_move_n T src first 0 dst d = Ok (src, dst)"
| "uninitialized_move_n T src first (Suc n) dst d =
     (case load src first of
        None \<Rightarrow> Undefined
      | Some x \<Rightarrow>
          (case move_construct T x of
             None \<Rightarrow> Throws ElemExn (src, dst)
           | Some (y, left) \<Rightarrow>
               (case construct_at dst d y of
                  None \<Rightarrow> Undefined
                | Some dst' \<Rightarrow>
                    (case uninitialized_move_n T (src[first := Live left]) (Suc first) n
                            dst' (Suc d) of
                       Ok r \<Rightarrow> Ok r
                     | Throws e (s, b) \<Rightarrow>
                         (case destroy_at b d of
                            None \<Rightarrow> Undefined
                          | Some b' \<Rightarrow> Throws e (s, b'))
                     | Undefined \<Rightarrow> Undefined))))"

text \<open>
  \<open>std::copy(src + first, src + first + n, dst + d)\<close>: copy assignment to live objects of
  another block, front to back, with no undoing.
\<close>

fun copy_n :: "'a elem_type \<Rightarrow> 'a slot list \<Rightarrow> nat \<Rightarrow> nat \<Rightarrow> 'a slot list \<Rightarrow> nat
     \<Rightarrow> ('a slot list, 'a slot list) outcome" where
  "copy_n T src first 0 dst d = Ok dst"
| "copy_n T src first (Suc n) dst d =
     (case load src first of
        None \<Rightarrow> Undefined
      | Some x \<Rightarrow>
          (case load dst d of
             None \<Rightarrow> Undefined
           | Some cur \<Rightarrow>
               (case copy_assign T cur x of
                  None \<Rightarrow> Throws ElemExn dst
                | Some z \<Rightarrow> copy_n T src (Suc first) n (dst[d := Live z]) (Suc d))))"

text \<open>
  \<open>std::move(buf + first, buf + first + n, buf + d)\<close>: move assignment inside one block,
  front to back.
\<close>

fun move_n :: "'a elem_type \<Rightarrow> 'a slot list \<Rightarrow> nat \<Rightarrow> nat \<Rightarrow> nat
     \<Rightarrow> ('a slot list, 'a slot list) outcome" where
  "move_n T buf first 0 d = Ok buf"
| "move_n T buf first (Suc n) d =
     (case load buf first of
        None \<Rightarrow> Undefined
      | Some x \<Rightarrow>
          (case load buf d of
             None \<Rightarrow> Undefined
           | Some cur \<Rightarrow>
               (case move_assign T cur x of
                  None \<Rightarrow> Throws ElemExn buf
                | Some (z, left) \<Rightarrow>
                    move_n T (buf[d := Live z, first := Live left]) (Suc first) n (Suc d))))"

text \<open>
  \<open>std::move_backward(buf + first, buf + first + n, buf + d_last)\<close>: move assignment inside
  one block, back to front, the last object going to slot \<open>d_last - 1\<close>.
\<close>

fun move_backward :: "'a elem_type \<Rightarrow> 'a slot list \<Rightarrow> nat \<Rightarrow> nat \<Rightarrow> nat
     \<Rightarrow> ('a slot list, 'a slot list) outcome" where
  "move_backward T buf first 0 d_last = Ok buf"
| "move_backward T buf first (Suc n) d_last =
     (if d_last = 0 then Undefined
      else
        (case load buf (first + n) of
           None \<Rightarrow> Undefined
         | Some x \<Rightarrow>
             (case load buf (d_last - 1) of
                None \<Rightarrow> Undefined
              | Some cur \<Rightarrow>
                  (case move_assign T cur x of
                     None \<Rightarrow> Throws ElemExn buf
                   | Some (z, left) \<Rightarrow>
                       move_backward T (buf[d_last - 1 := Live z, first + n := Live left])
                         first n (d_last - 1)))))"

section \<open>RawMemory\<close>

text \<open>
  \<open>size_t\<close> has 64 bits: its values are the naturals up to \<open>SIZE_MAX\<close>, and the arithmetic of
  the container on it, \<open>size_ * 2\<close> and \<open>++size_\<close>, wraps around.
\<close>

definition SIZE_MAX :: nat where
  "SIZE_MAX = 2 ^ 64 - 1"

definition size_t :: "nat \<Rightarrow> nat" where
  "size_t n = n mod 2 ^ 64"

text \<open>
  The members \<open>buffer_\<close> and \<open>capacity_\<close> of the source are the fields \<open>buffer'\<close> and
  \<open>capacity'\<close>, as \<open>data_\<close> and \<open>size_\<close> of the vector are \<open>data'\<close> and \<open>size'\<close>: a name here cannot end
  in an underscore. \<open>buffer'\<close> is the block the pointer of the source leads to, \<open>[]\<close> for
  \<open>nullptr\<close>.
\<close>

record 'a raw_memory =
  buffer' :: "'a slot list"
  capacity' :: nat

text \<open>
  \<open>operator new\<close> is the platform's: \<open>al n\<close> says whether it satisfies the request for a block
  of \<open>n\<close> elements. Every member function requests at most one block.
\<close>

type_synonym allocator = "nat \<Rightarrow> bool"

definition Allocate :: "allocator \<Rightarrow> nat \<Rightarrow> 'a slot list option" where
  "Allocate al n = (if n \<noteq> 0 then (if al n then Some (replicate n Raw) else None) else Some [])"

text \<open>\<open>RawMemory()\<close>.\<close>

definition RawMemory_default :: "'a raw_memory" where
  "RawMemory_default = \<lparr>buffer' = [], capacity' = 0\<rparr>"

text \<open>\<open>RawMemory(size_t capacity)\<close>; \<open>None\<close> is \<open>std::bad_alloc\<close>.\<close>

definition RawMemory_sized :: "allocator \<Rightarrow> nat \<Rightarrow> 'a raw_memory option" where
  "RawMemory_sized al capacity =
     (case Allocate al capacity of
        None \<Rightarrow> None
      | Some b \<Rightarrow> Some \<lparr>buffer' = b, capacity' = capacity\<rparr>)"

text \<open>\<open>RawMemory::Swap\<close> on this block and the other: the two after the call.\<close>

definition RawMemory_Swap :: "'a raw_memory \<times> 'a raw_memory \<Rightarrow> 'a raw_memory \<times> 'a raw_memory" where
  "RawMemory_Swap p =
     (case p of (this, other) \<Rightarrow>
        (\<lparr>buffer' = buffer' other, capacity' = capacity' other\<rparr>,
         \<lparr>buffer' = buffer' this, capacity' = capacity' this\<rparr>))"

text \<open>\<open>RawMemory(RawMemory&& other)\<close>: the new block and the other after the call.\<close>

definition RawMemory_move :: "'a raw_memory \<Rightarrow> 'a raw_memory \<times> 'a raw_memory" where
  "RawMemory_move other = RawMemory_Swap (RawMemory_default, other)"

section \<open>Vector\<close>

record 'a vector =
  data' :: "'a raw_memory"
  size' :: nat

definition Size :: "'a vector \<Rightarrow> nat" where
  "Size v = size' v"

definition Capacity :: "'a vector \<Rightarrow> nat" where
  "Capacity v = capacity' (data' v)"

text \<open>The block of the vector, and the vector with another block content.\<close>

definition slots :: "'a vector \<Rightarrow> 'a slot list" where
  "slots v = buffer' (data' v)"

definition with_slots :: "'a vector \<Rightarrow> 'a slot list \<Rightarrow> 'a vector" where
  "with_slots v b = v\<lparr>data' := (data' v)\<lparr>buffer' := b\<rparr>\<rparr>"

text \<open>\<open>operator[]\<close>, with its \<open>assert(index < size_)\<close> and that of \<open>RawMemory::operator[]\<close>.\<close>

definition at :: "'a vector \<Rightarrow> nat \<Rightarrow> 'a option" where
  "at v index =
     (if index < size' v \<and> index < capacity' (data' v) then load (slots v) index else None)"

text \<open>\<open>Vector()\<close>.\<close>

definition Vector_default :: "'a vector" where
  "Vector_default = \<lparr>data' = RawMemory_default, size' = 0\<rparr>"

text \<open>\<open>explicit Vector(size_t size)\<close>.\<close>

definition Vector_sized :: "'a elem_type \<Rightarrow> allocator \<Rightarrow> nat \<Rightarrow> ('a vector, unit) outcome" where
  "Vector_sized T al sz =
     (case RawMemory_sized al sz of
        None \<Rightarrow> Throws BadAlloc ()
      | Some d \<Rightarrow>
          (case uninitialized_value_construct_n T (buffer' d) 0 sz of
             Ok b \<Rightarrow> Ok \<lparr>data' = d\<lparr>buffer' := b\<rparr>, size' = sz\<rparr>
           | Throws e b \<Rightarrow> Throws e ()
           | Undefined \<Rightarrow> Undefined))"

text \<open>\<open>~Vector()\<close>: \<open>std::destroy_n(begin(), size_)\<close>, then the block is released.\<close>

definition Vector_dtor :: "'a vector \<Rightarrow> (unit, unit) outcome" where
  "Vector_dtor v =
     (case destroy_n (slots v) 0 (size' v) of
        None \<Rightarrow> Undefined
      | Some b \<Rightarrow> Ok ())"

text \<open>\<open>Vector(const Vector& other)\<close>.\<close>

definition Vector_copy :: "'a elem_type \<Rightarrow> allocator \<Rightarrow> 'a vector \<Rightarrow> ('a vector, unit) outcome" where
  "Vector_copy T al other =
     (case RawMemory_sized al (size' other) of
        None \<Rightarrow> Throws BadAlloc ()
      | Some d \<Rightarrow>
          (case uninitialized_copy_n T (slots other) 0 (size' other) (buffer' d) 0 of
             Ok b \<Rightarrow> Ok \<lparr>data' = d\<lparr>buffer' := b\<rparr>, size' = size' other\<rparr>
           | Throws e b \<Rightarrow> Throws e ()
           | Undefined \<Rightarrow> Undefined))"

text \<open>
  \<open>Vector(Vector&& other)\<close>: the new vector and the other after the call
  (\<open>std::exchange(other.size_, 0)\<close>).
\<close>

definition Vector_move :: "'a vector \<Rightarrow> 'a vector \<times> 'a vector" where
  "Vector_move other =
     (case RawMemory_move (data' other) of
        (d, od) \<Rightarrow> (\<lparr>data' = d, size' = size' other\<rparr>, \<lparr>data' = od, size' = 0\<rparr>))"

text \<open>\<open>Swap\<close> on this vector and the other: the two after the call.\<close>

definition Swap :: "'a vector \<times> 'a vector \<Rightarrow> 'a vector \<times> 'a vector" where
  "Swap p =
     (case p of (this, other) \<Rightarrow>
        (case RawMemory_Swap (data' this, data' other) of
           (d, od) \<Rightarrow> (\<lparr>data' = d, size' = size' other\<rparr>, \<lparr>data' = od, size' = size' this\<rparr>)))"

text \<open>\<open>Reserve\<close>.\<close>

definition Reserve :: "'a elem_type \<Rightarrow> allocator \<Rightarrow> 'a vector \<Rightarrow> nat \<Rightarrow> ('a vector, 'a vector) outcome" where
  "Reserve T al v new_capacity =
     (if new_capacity \<le> capacity' (data' v) then Ok v
      else
        (case RawMemory_sized al new_capacity of
           None \<Rightarrow> Throws BadAlloc v
         | Some new_data \<Rightarrow>
             (case
                (if nothrow_move_constructible T \<or> \<not> copy_constructible T
                 then uninitialized_move_n T (slots v) 0 (size' v) (buffer' new_data) 0
                 else
                   (case uninitialized_copy_n T (slots v) 0 (size' v) (buffer' new_data) 0 of
                      Ok b \<Rightarrow> Ok (slots v, b)
                    | Throws e b \<Rightarrow> Throws e (slots v, b)
                    | Undefined \<Rightarrow> Undefined))
              of
                Undefined \<Rightarrow> Undefined
              | Throws e (old, b) \<Rightarrow> Throws e (with_slots v old)
              | Ok (old, b) \<Rightarrow>
                  (case destroy_n old 0 (size' v) of
                     None \<Rightarrow> Undefined
                   | Some old' \<Rightarrow>
                       (case RawMemory_Swap (data' v, new_data\<lparr>buffer' := b\<rparr>) of
                          (d, released) \<Rightarrow> Ok (v\<lparr>data' := d\<rparr>))))))"

text \<open>\<open>Resize\<close>.\<close>

definition Resize :: "'a elem_type \<Rightarrow> allocator \<Rightarrow> 'a vector \<Rightarrow> nat \<Rightarrow> ('a vector, 'a vector) outcome" where
  "Resize T al v new_size =
     (if new_size < size' v then
        (case destroy_n (slots v) new_size (size' v - new_size) of
           None \<Rightarrow> Undefined
         | Some b \<Rightarrow> Ok ((with_slots v b)\<lparr>size' := new_size\<rparr>))
      else if new_size > size' v then
        (case Reserve T al v new_size of
           Undefined \<Rightarrow> Undefined
         | Throws e v' \<Rightarrow> Throws e v'
         | Ok v' \<Rightarrow>
             (case uninitialized_value_construct_n T (slots v') (size' v') (new_size - size' v') of
                Undefined \<Rightarrow> Undefined
              | Throws e b \<Rightarrow> Throws e (with_slots v' b)
              | Ok b \<Rightarrow> Ok ((with_slots v' b)\<lparr>size' := new_size\<rparr>)))
      else Ok (v\<lparr>size' := new_size\<rparr>))"

text \<open>\<open>PopBack\<close>.\<close>

definition PopBack :: "'a vector \<Rightarrow> ('a vector, 'a vector) outcome" where
  "PopBack v =
     (if size' v = 0 then Undefined
      else
        (case destroy_at (slots v) (size' v - 1) of
           None \<Rightarrow> Undefined
         | Some b \<Rightarrow> Ok ((with_slots v b)\<lparr>size' := size' v - 1\<rparr>)))"

text \<open>
  \<open>Realocate\<close>. The position is the index \<open>idx\<close> of the cursor; \<open>mk\<close> is what the constructor
  of \<open>T\<close> gives on the forwarded arguments, \<open>None\<close> when it throws. The arguments are read
  before any slot of the vector is written, on every path of \<open>Emplace\<close>, so that a reference to
  an element of the vector itself is the value it had at the call. The handler of the source
  destroys the new element only: the block \<open>new_data\<close> is released with whatever the first
  relocation loop constructed in it when the second one throws.
\<close>

definition Realocate :: "'a elem_type \<Rightarrow> allocator \<Rightarrow> 'a vector \<Rightarrow> nat \<Rightarrow> 'a option
     \<Rightarrow> ('a vector, 'a vector) outcome" where
  "Realocate T al v idx mk =
     (case RawMemory_sized al (if size' v = 0 then 1 else size_t (size' v * 2)) of
        None \<Rightarrow> Throws BadAlloc v
      | Some new_data \<Rightarrow>
          (if \<not> idx < capacity' new_data then Undefined
           else
             (case mk of
                None \<Rightarrow> Throws ElemExn v
              | Some x \<Rightarrow>
                  (case construct_at (buffer' new_data) idx x of
                     None \<Rightarrow> Undefined
                   | Some nb \<Rightarrow>
                       (case
                          (if nothrow_move_constructible T \<or> \<not> copy_constructible T then
                             (case uninitialized_move_n T (slots v) 0 idx nb 0 of
                                Undefined \<Rightarrow> Undefined
                              | Throws e r \<Rightarrow> Throws e r
                              | Ok (old, b) \<Rightarrow>
                                  uninitialized_move_n T old idx (size' v - idx) b (idx + 1))
                           else
                             (case uninitialized_copy_n T (slots v) 0 idx nb 0 of
                                Undefined \<Rightarrow> Undefined
                              | Throws e b \<Rightarrow> Throws e (slots v, b)
                              | Ok b \<Rightarrow>
                                  (case uninitialized_copy_n T (slots v) idx (size' v - idx) b
                                          (idx + 1) of
                                     Undefined \<Rightarrow> Undefined
                                   | Throws e b' \<Rightarrow> Throws e (slots v, b')
                                   | Ok b' \<Rightarrow> Ok (slots v, b'))))
                        of
                          Undefined \<Rightarrow> Undefined
                        | Throws e (old, b) \<Rightarrow>
                            (case destroy_at b idx of
                               None \<Rightarrow> Undefined
                             | Some b' \<Rightarrow> Throws e (with_slots v old))
                        | Ok (old, b) \<Rightarrow>
                            (case destroy_n old 0 (size' v) of
                               None \<Rightarrow> Undefined
                             | Some old' \<Rightarrow>
                                 (case RawMemory_Swap (data' v, new_data\<lparr>buffer' := b\<rparr>) of
                                    (d, released) \<Rightarrow>
                                      Ok \<lparr>data' = d, size' = size_t (size' v + 1)\<rparr>)))))))"

text \<open>
  \<open>Emplace\<close>, with \<open>pos\<close> the index of the cursor and \<open>mk\<close> as in \<open>Realocate\<close>. The iterator
  returned is \<open>begin() + pos\<close> of the vector after the call on every path.
\<close>

definition Emplace :: "'a elem_type \<Rightarrow> allocator \<Rightarrow> 'a vector \<Rightarrow> nat \<Rightarrow> 'a option
     \<Rightarrow> ('a vector, 'a vector) outcome" where
  "Emplace T al v pos mk =
     (if \<not> pos \<le> size' v then Undefined
      else if size' v = capacity' (data' v) then Realocate T al v pos mk
      else if pos = size' v then
        (case mk of
           None \<Rightarrow> Throws ElemExn v
         | Some x \<Rightarrow>
             (case construct_at (slots v) pos x of
                None \<Rightarrow> Undefined
              | Some b \<Rightarrow> Ok ((with_slots v b)\<lparr>size' := size_t (size' v + 1)\<rparr>)))
      else
        (case mk of
           None \<Rightarrow> Throws ElemExn v
         | Some tmp \<Rightarrow>
             (if \<not> size' v - 1 < capacity' (data' v) then Undefined
              else
                (case load (slots v) (size' v - 1) of
                   None \<Rightarrow> Undefined
                 | Some back \<Rightarrow>
                     (case move_construct T back of
                        None \<Rightarrow> Throws ElemExn v
                      | Some (y, left) \<Rightarrow>
                          (case construct_at ((slots v)[size' v - 1 := Live left]) (size' v) y of
                             None \<Rightarrow> Undefined
                           | Some b1 \<Rightarrow>
                               (case move_backward T b1 pos (size' v - 1 - pos) (size' v) of
                                  Undefined \<Rightarrow> Undefined
                                | Throws e b2 \<Rightarrow> Throws e (with_slots v b2)
                                | Ok b2 \<Rightarrow>
                                    (case load b2 pos of
                                       None \<Rightarrow> Undefined
                                     | Some cur \<Rightarrow>
                                         (case move_assign T cur tmp of
                                            None \<Rightarrow> Throws ElemExn (with_slots v b2)
                                          | Some (z, left') \<Rightarrow>
                                              Ok ((with_slots v (b2[pos := Live z]))
                                                    \<lparr>size' := size_t (size' v + 1)\<rparr>))))))))))"

text \<open>\<open>EmplaceBack\<close>, the two \<open>PushBack\<close> and the two \<open>Insert\<close>.\<close>

definition EmplaceBack :: "'a elem_type \<Rightarrow> allocator \<Rightarrow> 'a vector \<Rightarrow> 'a option
     \<Rightarrow> ('a vector, 'a vector) outcome" where
  "EmplaceBack T al v mk = Emplace T al v (size' v) mk"

definition PushBack_copy :: "'a elem_type \<Rightarrow> allocator \<Rightarrow> 'a vector \<Rightarrow> 'a
     \<Rightarrow> ('a vector, 'a vector) outcome" where
  "PushBack_copy T al v val = EmplaceBack T al v (copy_construct T val)"

definition PushBack_move :: "'a elem_type \<Rightarrow> allocator \<Rightarrow> 'a vector \<Rightarrow> 'a
     \<Rightarrow> ('a vector, 'a vector) outcome" where
  "PushBack_move T al v val = EmplaceBack T al v (map_option fst (move_construct T val))"

definition Insert_copy :: "'a elem_type \<Rightarrow> allocator \<Rightarrow> 'a vector \<Rightarrow> nat \<Rightarrow> 'a
     \<Rightarrow> ('a vector, 'a vector) outcome" where
  "Insert_copy T al v pos val = Emplace T al v pos (copy_construct T val)"


text \<open>\<open>Erase\<close>, with \<open>pos\<close> the index of the cursor; the iterator returned is \<open>begin() + pos\<close>.\<close>

definition Erase :: "'a elem_type \<Rightarrow> 'a vector \<Rightarrow> nat \<Rightarrow> ('a vector, 'a vector) outcome" where
  "Erase T v pos =
     (if \<not> pos < size' v then Undefined
      else if size' v \<noteq> 0 then
        (case move_n T (slots v) (pos + 1) (size' v - (pos + 1)) pos of
           Undefined \<Rightarrow> Undefined
         | Throws e b \<Rightarrow> Throws e (with_slots v b)
         | Ok b \<Rightarrow> PopBack (with_slots v b))
      else Ok v)"

text \<open>\<open>AllocateOnCapacity\<close>.\<close>

definition AllocateOnCapacity :: "'a elem_type \<Rightarrow> 'a vector \<Rightarrow> 'a vector
     \<Rightarrow> ('a vector, 'a vector) outcome" where
  "AllocateOnCapacity T v rhs =
     (case copy_n T (slots rhs) 0 (min (size' v) (size' rhs)) (slots v) 0 of
        Undefined \<Rightarrow> Undefined
      | Throws e b \<Rightarrow> Throws e (with_slots v b)
      | Ok b \<Rightarrow>
          (if size' v > size' rhs then
             (case destroy_n b (size' rhs) (size' v - size' rhs) of
                None \<Rightarrow> Undefined
              | Some b' \<Rightarrow> Ok ((with_slots v b')\<lparr>size' := size' rhs\<rparr>))
           else
             (case uninitialized_copy_n T (slots rhs) (size' v) (size' rhs - size' v) b (size' v) of
                Undefined \<Rightarrow> Undefined
              | Throws e b' \<Rightarrow> Throws e (with_slots v b')
              | Ok b' \<Rightarrow> Ok ((with_slots v b')\<lparr>size' := size' rhs\<rparr>))))"

section \<open>Objects and references\<close>

text \<open>
  The copy and move operations take a second vector by reference, and the assignments
  compare the addresses of the two. A store holds the vector objects by address.
\<close>

type_synonym 'a store = "nat \<rightharpoonup> 'a vector"

text \<open>\<open>Vector()\<close>, \<open>Vector(size)\<close>, \<open>Vector(const Vector&)\<close> and \<open>Vector(Vector&&)\<close> of a new object at
  the address \<open>this\<close>.\<close>

definition new_default :: "'a store \<Rightarrow> nat \<Rightarrow> ('a store, 'a store) outcome" where
  "new_default st this =
     (case st this of
        Some v \<Rightarrow> Undefined
      | None \<Rightarrow> Ok (st(this \<mapsto> Vector_default)))"

definition new_sized :: "'a elem_type \<Rightarrow> allocator \<Rightarrow> 'a store \<Rightarrow> nat \<Rightarrow> nat
     \<Rightarrow> ('a store, 'a store) outcome" where
  "new_sized T al st this sz =
     (case st this of
        Some v \<Rightarrow> Undefined
      | None \<Rightarrow>
          (case Vector_sized T al sz of
             Undefined \<Rightarrow> Undefined
           | Throws e u \<Rightarrow> Throws e st
           | Ok v \<Rightarrow> Ok (st(this \<mapsto> v))))"

definition new_copy :: "'a elem_type \<Rightarrow> allocator \<Rightarrow> 'a store \<Rightarrow> nat \<Rightarrow> nat
     \<Rightarrow> ('a store, 'a store) outcome" where
  "new_copy T al st this other =
     (case (st this, st other) of
        (None, Some ov) \<Rightarrow>
          (case Vector_copy T al ov of
             Undefined \<Rightarrow> Undefined
           | Throws e u \<Rightarrow> Throws e st
           | Ok v \<Rightarrow> Ok (st(this \<mapsto> v)))
      | _ \<Rightarrow> Undefined)"

definition new_move :: "'a store \<Rightarrow> nat \<Rightarrow> nat \<Rightarrow> ('a store, 'a store) outcome" where
  "new_move st this other =
     (case (st this, st other) of
        (None, Some ov) \<Rightarrow>
          (case Vector_move ov of (v, ov') \<Rightarrow> Ok (st(this \<mapsto> v, other \<mapsto> ov')))
      | _ \<Rightarrow> Undefined)"

text \<open>\<open>this->Swap(other)\<close> on two references.\<close>

definition swap_at :: "'a store \<Rightarrow> nat \<Rightarrow> nat \<Rightarrow> ('a store, 'a store) outcome" where
  "swap_at st this other =
     (case (st this, st other) of
        (Some v, Some ov) \<Rightarrow>
          (case Swap (v, ov) of (v', ov') \<Rightarrow> Ok (st(this \<mapsto> v', other \<mapsto> ov')))
      | _ \<Rightarrow> Undefined)"

text \<open>\<open>operator=(const Vector& rhs)\<close>. The copy \<open>rhs_copy\<close> is a local object: after the swap it
  holds the old elements, and its destructor runs at the end of the block.\<close>

definition assign_copy :: "'a elem_type \<Rightarrow> allocator \<Rightarrow> 'a store \<Rightarrow> nat \<Rightarrow> nat
     \<Rightarrow> ('a store, 'a store) outcome" where
  "assign_copy T al st this rhs =
     (case (st this, st rhs) of
        (Some v, Some rv) \<Rightarrow>
          (if this \<noteq> rhs then
             (if size' rv > capacity' (data' v) then
                (case Vector_copy T al rv of
                   Undefined \<Rightarrow> Undefined
                 | Throws e u \<Rightarrow> Throws e st
                 | Ok rhs_copy \<Rightarrow>
                     (case Swap (v, rhs_copy) of
                        (v', rhs_copy') \<Rightarrow>
                          (case Vector_dtor rhs_copy' of
                             Ok u \<Rightarrow> Ok (st(this \<mapsto> v'))
                           | _ \<Rightarrow> Undefined)))
              else
                (case AllocateOnCapacity T v rv of
                   Undefined \<Rightarrow> Undefined
                 | Throws e v' \<Rightarrow> Throws e (st(this \<mapsto> v'))
                 | Ok v' \<Rightarrow> Ok (st(this \<mapsto> v'))))
           else Ok st)
      | _ \<Rightarrow> Undefined)"

text \<open>\<open>operator=(Vector&& rhs)\<close>.\<close>

definition assign_move :: "'a store \<Rightarrow> nat \<Rightarrow> nat \<Rightarrow> ('a store, 'a store) outcome" where
  "assign_move st this rhs =
     (case (st this, st rhs) of
        (Some v, Some rv) \<Rightarrow> (if this \<noteq> rhs then swap_at st this rhs else Ok st)
      | _ \<Rightarrow> Undefined)"

section \<open>The abstraction of a vector\<close>

text \<open>The values of the live objects of a range of slots, in order.\<close>

fun live_values :: "'a slot list \<Rightarrow> 'a list" where
  "live_values [] = []"
| "live_values (Live x # ss) = x # live_values ss"
| "live_values (Raw # ss) = live_values ss"

text \<open>The sequence the vector holds: the objects in the slots \<open>[0, size_)\<close>.\<close>

definition elements :: "'a vector \<Rightarrow> 'a list" where
  "elements v = live_values (take (size' v) (slots v))"

fun is_live :: "'a slot \<Rightarrow> bool" where
  "is_live (Live x) = True"
| "is_live Raw = False"

text \<open>
  The invariant of the data model: the block has \<open>capacity_\<close> slots, a number a \<open>size_t\<close> can
  hold; \<open>size_\<close> is at most the capacity; the slots \<open>[0, size_)\<close> are exactly the live ones.
\<close>

definition vector_inv :: "'a vector \<Rightarrow> bool" where
  "vector_inv v \<longleftrightarrow>
     length (slots v) = capacity' (data' v) \<and> capacity' (data' v) \<le> SIZE_MAX \<and>
     size' v \<le> capacity' (data' v) \<and>
     list_all is_live (take (size' v) (slots v)) \<and>
     list_all (\<lambda>s. \<not> is_live s) (drop (size' v) (slots v))"

text \<open>
  The vector that holds the sequence \<open>xs\<close> in a block with \<open>k\<close> more slots of raw memory.
\<close>

definition vec :: "'a list \<Rightarrow> nat \<Rightarrow> 'a vector" where
  "vec xs k =
     \<lparr>data' = \<lparr>buffer' = map Live xs @ replicate k Raw, capacity' = length xs + k\<rparr>,
      size' = length xs\<rparr>"

text \<open>The invariant on every object of a store.\<close>

definition store_inv :: "'a store \<Rightarrow> bool" where
  "store_inv st \<longleftrightarrow> (\<forall>a v. st a = Some v \<longrightarrow> vector_inv v)"

text \<open>
  An element type none of whose operations throws: the copy and move constructors, the copy
  and move assignments, and value initialisation.
\<close>

definition nothrow :: "'a elem_type \<Rightarrow> bool" where
  "nothrow T \<longleftrightarrow>
     (\<forall>x. \<not> copy_ctor_throws T x) \<and> (\<forall>x. \<not> move_ctor_throws T x) \<and>
     (\<forall>cur x. \<not> copy_assign_throws T cur x) \<and> (\<forall>cur x. \<not> move_assign_throws T cur x) \<and>
     value_init T \<noteq> None"

section \<open>The insertion without reallocation as the specification words it\<close>


section \<open>Element types, allocators and objects for the examples\<close>

text \<open>
  An element type none of whose operations throws, with a \<open>noexcept\<close> move constructor; a
  moved-from object holds \<open>0\<close>.
\<close>

definition T_value :: "nat elem_type" where
  "T_value =
     \<lparr>nothrow_move_constructible = True, copy_constructible = True, value_init = Some 0,
      copy_ctor_throws = (\<lambda>x. False), move_ctor_throws = (\<lambda>x. False),
      copy_assign_throws = (\<lambda>cur x. False), move_assign_throws = (\<lambda>cur x. False),
      moved_from = (\<lambda>x. 0)\<rparr>"

text \<open>
  An element type whose copy constructor throws on the value 6, and whose move constructor
  is not \<open>noexcept\<close>: \<open>Reserve\<close> and \<open>Realocate\<close> relocate by copy.
\<close>

definition T_fragile :: "nat elem_type" where
  "T_fragile =
     \<lparr>nothrow_move_constructible = False, copy_constructible = True, value_init = Some 0,
      copy_ctor_throws = (\<lambda>x. x = 6), move_ctor_throws = (\<lambda>x. False),
      copy_assign_throws = (\<lambda>cur x. False), move_assign_throws = (\<lambda>cur x. False),
      moved_from = (\<lambda>x. 0)\<rparr>"

text \<open>An element type whose move assignment throws.\<close>

definition T_shaky :: "nat elem_type" where
  "T_shaky =
     \<lparr>nothrow_move_constructible = True, copy_constructible = True, value_init = Some 0,
      copy_ctor_throws = (\<lambda>x. False), move_ctor_throws = (\<lambda>x. False),
      copy_assign_throws = (\<lambda>cur x. False), move_assign_throws = (\<lambda>cur x. True),
      moved_from = (\<lambda>x. 0)\<rparr>"

text \<open>An allocator that satisfies every request.\<close>

definition always :: allocator where
  "always n = True"

text \<open>Two vector objects, \<open>[1, 2]\<close> at address 0 and \<open>[7]\<close> at address 1.\<close>

definition two_vectors :: "nat store" where
  "two_vectors = [0 \<mapsto> vec [1, 2] 0, 1 \<mapsto> vec [7] 0]"


section \<open>The loops of the standard library on blocks of a known shape\<close>

lemma load_at [simp]: "length A = i \<Longrightarrow> load (A @ Live x # B) i = Some x"
  by (auto simp: load_def)

lemma load_Raw [simp]: "length A = i \<Longrightarrow> load (A @ Raw # B) i = None"
  by (auto simp: load_def)

lemma construct_at_Raw [simp]:
  "length A = i \<Longrightarrow> construct_at (A @ Raw # B) i x = Some (A @ Live x # B)"
  by (auto simp: construct_at_def)

lemma destroy_at_Live [simp]:
  "length A = i \<Longrightarrow> destroy_at (A @ Live x # B) i = Some (A @ Raw # B)"
  by (auto simp: destroy_at_def)

lemma update_at [simp]: "length A = i \<Longrightarrow> (A @ s # B)[i := t] = A @ t # B"
  by auto

lemma destroy_n_Live:
  "length A = first \<Longrightarrow>
   destroy_n (A @ map Live xs @ B) first (length xs) = Some (A @ replicate (length xs) Raw @ B)"
proof (induction xs arbitrary: A first)
  case Nil
  then show ?case by simp
next
  case (Cons x xs)
  have "destroy_n ((A @ [Raw]) @ map Live xs @ B) (Suc first) (length xs)
          = Some ((A @ [Raw]) @ replicate (length xs) Raw @ B)"
    by (rule Cons.IH) (simp add: Cons.prems)
  with Cons.prems show ?case by simp
qed

lemma uninitialized_value_construct_n_Raw:
  "length A = first \<Longrightarrow>
   uninitialized_value_construct_n T (A @ replicate n Raw @ B) first n =
     (case value_init T of
        None \<Rightarrow> if n = 0 then Ok (A @ B) else Throws ElemExn (A @ replicate n Raw @ B)
      | Some x \<Rightarrow> Ok (A @ replicate n (Live x) @ B))"
proof (induction n arbitrary: A first)
  case 0
  then show ?case by (simp split: option.splits)
next
  case (Suc n)
  show ?case
  proof (cases "value_init T")
    case None
    then show ?thesis by simp
  next
    case (Some x)
    have "uninitialized_value_construct_n T ((A @ [Live x]) @ replicate n Raw @ B) (Suc first) n
            = Ok ((A @ [Live x]) @ replicate n (Live x) @ B)"
      using Suc.IH [of "A @ [Live x]" "Suc first"] Suc.prems Some by simp
    with Some Suc.prems show ?thesis by simp
  qed
qed

lemma uninitialized_copy_n_Raw:
  "length A = first \<Longrightarrow> length C = d \<Longrightarrow>
   uninitialized_copy_n T (A @ map Live xs @ B) first (length xs)
       (C @ replicate (length xs) Raw @ D) d =
     (if \<exists>x\<in>set xs. copy_ctor_throws T x
      then Throws ElemExn (C @ replicate (length xs) Raw @ D)
      else Ok (C @ map Live xs @ D))"
proof (induction xs arbitrary: A first C d)
  case Nil
  then show ?case by simp
next
  case (Cons x xs)
  have IH: "uninitialized_copy_n T ((A @ [Live x]) @ map Live xs @ B) (Suc first) (length xs)
       ((C @ [Live x]) @ replicate (length xs) Raw @ D) (Suc d) =
     (if \<exists>x\<in>set xs. copy_ctor_throws T x
      then Throws ElemExn ((C @ [Live x]) @ replicate (length xs) Raw @ D)
      else Ok ((C @ [Live x]) @ map Live xs @ D))"
    by (rule Cons.IH) (simp_all add: Cons.prems)
  have d: "destroy_at (C @ Live x # replicate (length xs) Raw @ D) d
             = Some (C @ Raw # replicate (length xs) Raw @ D)"
    using Cons.prems by simp
  from IH d Cons.prems show ?case
    by (simp add: copy_construct_def)
qed


lemma uninitialized_move_n_Raw:
  "length A = first \<Longrightarrow> length C = d \<Longrightarrow>
   uninitialized_move_n T (A @ map Live xs @ B) first (length xs)
       (C @ replicate (length xs) Raw @ D) d =
       Ok (A @ map Live (map (moved_from T) xs) @ B, C @ map Live xs @ D) \<or>
   (\<not> nothrow_move_constructible T \<and> (\<exists>x\<in>set xs. move_ctor_throws T x) \<and>
    (\<exists>ys. length ys = length xs \<and>
       uninitialized_move_n T (A @ map Live xs @ B) first (length xs)
         (C @ replicate (length xs) Raw @ D) d =
       Throws ElemExn (A @ map Live ys @ B, C @ replicate (length xs) Raw @ D)))"
proof (induction xs arbitrary: A first C d)
  case Nil
  then show ?case by simp
next
  case (Cons x xs)
  let ?m = "moved_from T x"
  let ?rec = "uninitialized_move_n T ((A @ [Live ?m]) @ map Live xs @ B) (Suc first) (length xs)
       ((C @ [Live x]) @ replicate (length xs) Raw @ D) (Suc d)"
  show ?case
  proof (cases "\<not> nothrow_move_constructible T \<and> move_ctor_throws T x")
    case True
    then have "uninitialized_move_n T (A @ map Live (x # xs) @ B) first (length (x # xs))
       (C @ replicate (length (x # xs)) Raw @ D) d =
       Throws ElemExn (A @ map Live (x # xs) @ B, C @ replicate (length (x # xs)) Raw @ D)"
      using Cons.prems by (simp add: move_construct_def)
    with True show ?thesis by fastforce
  next
    case False
    have IH: "?rec = Ok ((A @ [Live ?m]) @ map Live (map (moved_from T) xs) @ B,
                        (C @ [Live x]) @ map Live xs @ D) \<or>
      (\<not> nothrow_move_constructible T \<and> (\<exists>x\<in>set xs. move_ctor_throws T x) \<and>
       (\<exists>ys. length ys = length xs \<and>
          ?rec = Throws ElemExn ((A @ [Live ?m]) @ map Live ys @ B,
                                 (C @ [Live x]) @ replicate (length xs) Raw @ D)))"
      by (rule Cons.IH) (simp_all add: Cons.prems)
    have step: "uninitialized_move_n T (A @ map Live (x # xs) @ B) first (length (x # xs))
       (C @ replicate (length (x # xs)) Raw @ D) d =
       (case ?rec of
          Ok r \<Rightarrow> Ok r
        | Throws e (s, b) \<Rightarrow>
            (case destroy_at b d of None \<Rightarrow> Undefined | Some b' \<Rightarrow> Throws e (s, b'))
        | Undefined \<Rightarrow> Undefined)"
      using False Cons.prems by (auto simp: move_construct_def)
    from IH show ?thesis
    proof
      assume "?rec = Ok ((A @ [Live ?m]) @ map Live (map (moved_from T) xs) @ B,
                        (C @ [Live x]) @ map Live xs @ D)"
      with step show ?thesis by simp
    next
      assume a: "\<not> nothrow_move_constructible T \<and> (\<exists>x\<in>set xs. move_ctor_throws T x) \<and>
       (\<exists>ys. length ys = length xs \<and>
          ?rec = Throws ElemExn ((A @ [Live ?m]) @ map Live ys @ B,
                                 (C @ [Live x]) @ replicate (length xs) Raw @ D))"
      then obtain ys where ys: "length ys = length xs"
        "?rec = Throws ElemExn ((A @ [Live ?m]) @ map Live ys @ B,
                                 (C @ [Live x]) @ replicate (length xs) Raw @ D)"
        by blast
      have "uninitialized_move_n T (A @ map Live (x # xs) @ B) first (length (x # xs))
         (C @ replicate (length (x # xs)) Raw @ D) d =
         Throws ElemExn (A @ map Live (?m # ys) @ B, C @ replicate (length (x # xs)) Raw @ D)"
        using step ys Cons.prems by simp
      moreover have "length (?m # ys) = length (x # xs)"
        using ys by simp
      ultimately show ?thesis using a by (metis list.set_intros(2))
    qed
  qed
qed

text \<open>A loop that returns has written inside the target block.\<close>

lemma uninitialized_copy_n_bound:
  "uninitialized_copy_n T src first n dst d = Ok r \<Longrightarrow>
   length r = length dst \<and> (0 < n \<longrightarrow> d + n \<le> length dst)"
proof (induction n arbitrary: first dst d)
  case 0
  then show ?case by simp
next
  case (Suc n)
  from Suc.prems obtain x y dst' where
    c: "construct_at dst d y = Some dst'" and
    r: "uninitialized_copy_n T src (Suc first) n dst' (Suc d) = Ok r"
    by (auto split: option.splits outcome.splits)
  from c have l: "length dst' = length dst" "d < length dst"
    by (auto simp: construct_at_def split: if_splits)
  from Suc.IH [OF r] l show ?case by auto
qed

lemma uninitialized_move_n_bound:
  "uninitialized_move_n T src first n dst d = Ok (s, r) \<Longrightarrow>
   length r = length dst \<and> (0 < n \<longrightarrow> d + n \<le> length dst)"
proof (induction n arbitrary: src first dst d)
  case 0
  then show ?case by simp
next
  case (Suc n)
  from Suc.prems obtain src' y dst' where
    c: "construct_at dst d y = Some dst'" and
    r: "uninitialized_move_n T src' (Suc first) n dst' (Suc d) = Ok (s, r)"
    by (auto split: option.splits outcome.splits prod.splits)
  from c have l: "length dst' = length dst" "d < length dst"
    by (auto simp: construct_at_def split: if_splits)
  from Suc.IH [OF r] l show ?case by auto
qed

lemma copy_n_Live:
  "length A = first \<Longrightarrow> length C = d \<Longrightarrow> length cs = length xs \<Longrightarrow>
   copy_n T (A @ map Live xs @ B) first (length xs) (C @ map Live cs @ D) d =
       Ok (C @ map Live xs @ D) \<or>
   ((\<exists>a b. copy_assign_throws T a b) \<and>
    (\<exists>zs. length zs = length xs \<and>
       copy_n T (A @ map Live xs @ B) first (length xs) (C @ map Live cs @ D) d =
       Throws ElemExn (C @ map Live zs @ D)))"
proof (induction xs arbitrary: A first C d cs)
  case Nil
  then show ?case by simp
next
  case (Cons x xs)
  from Cons.prems obtain c cs' where cs: "cs = c # cs'" "length cs' = length xs"
    by (cases cs) auto
  let ?call = "copy_n T (A @ map Live (x # xs) @ B) first (length (x # xs))
                 (C @ map Live cs @ D) d"
  let ?rec = "copy_n T ((A @ [Live x]) @ map Live xs @ B) (Suc first) (length xs)
                ((C @ [Live x]) @ map Live cs' @ D) (Suc d)"
  show ?case
  proof (cases "copy_assign_throws T c x")
    case True
    then have "?call = Throws ElemExn (C @ map Live cs @ D)"
      using Cons.prems cs by (simp add: copy_assign_def)
    moreover have "length cs = length (x # xs)"
      using Cons.prems by simp
    ultimately show ?thesis using True by blast
  next
    case False
    then have step: "?call = ?rec"
      using Cons.prems cs by (simp add: copy_assign_def)
    have IH: "?rec = Ok ((C @ [Live x]) @ map Live xs @ D) \<or>
      ((\<exists>a b. copy_assign_throws T a b) \<and>
       (\<exists>zs. length zs = length xs \<and> ?rec = Throws ElemExn ((C @ [Live x]) @ map Live zs @ D)))"
      by (rule Cons.IH) (simp_all add: Cons.prems cs)
    then show ?thesis
    proof
      assume "?rec = Ok ((C @ [Live x]) @ map Live xs @ D)"
      with step show ?thesis by simp
    next
      assume a: "(\<exists>a b. copy_assign_throws T a b) \<and>
       (\<exists>zs. length zs = length xs \<and> ?rec = Throws ElemExn ((C @ [Live x]) @ map Live zs @ D))"
      then obtain zs where zs: "length zs = length xs"
        "?rec = Throws ElemExn ((C @ [Live x]) @ map Live zs @ D)"
        by blast
      have "?call = Throws ElemExn (C @ map Live (x # zs) @ D)"
        using step zs by simp
      moreover have "length (x # zs) = length (x # xs)"
        using zs by simp
      ultimately show ?thesis using a by blast
    qed
  qed
qed

lemma move_n_Live:
  "length A = d \<Longrightarrow> first = Suc d \<Longrightarrow>
   move_n T (A @ Live c # map Live ys @ B) first (length ys) d =
       Ok (A @ map Live ys @ Live (last (c # map (moved_from T) ys)) # B) \<or>
   ((\<exists>a b. move_assign_throws T a b) \<and>
    (\<exists>zs. length zs = Suc (length ys) \<and>
       move_n T (A @ Live c # map Live ys @ B) first (length ys) d =
       Throws ElemExn (A @ map Live zs @ B)))"
proof (induction ys arbitrary: A first c d)
  case Nil
  then show ?case by simp
next
  case (Cons y ys)
  let ?m = "moved_from T y"
  let ?buf = "A @ Live c # map Live (y # ys) @ B"
  let ?call = "move_n T ?buf first (length (y # ys)) d"
  let ?rec = "move_n T ((A @ [Live y]) @ Live ?m # map Live ys @ B) (Suc first) (length ys) (Suc d)"
  have l1: "load ?buf first = Some y"
    using load_at [of "A @ [Live c]" first y "map Live ys @ B"] Cons.prems by simp
  have l2: "load ?buf d = Some c"
    using Cons.prems by simp
  have u: "?buf[d := Live y, first := Live ?m] = (A @ [Live y]) @ Live ?m # map Live ys @ B"
    using update_at [of "A @ [Live y]" first "Live y" "map Live ys @ B" "Live ?m"] Cons.prems
    by simp
  show ?case
  proof (cases "move_assign_throws T c y")
    case True
    then have "?call = Throws ElemExn (A @ map Live (c # y # ys) @ B)"
      using l1 l2 by (simp add: move_assign_def)
    moreover have "length (c # y # ys) = Suc (length (y # ys))"
      by simp
    ultimately show ?thesis using True by blast
  next
    case False
    then have step: "?call = ?rec"
      using l1 l2 u by (simp add: move_assign_def)
    have IH: "?rec = Ok ((A @ [Live y]) @ map Live ys @ Live (last (?m # map (moved_from T) ys)) # B) \<or>
      ((\<exists>a b. move_assign_throws T a b) \<and>
       (\<exists>zs. length zs = Suc (length ys) \<and> ?rec = Throws ElemExn ((A @ [Live y]) @ map Live zs @ B)))"
      by (rule Cons.IH) (simp_all add: Cons.prems)
    then show ?thesis
    proof
      assume "?rec = Ok ((A @ [Live y]) @ map Live ys @ Live (last (?m # map (moved_from T) ys)) # B)"
      with step show ?thesis by simp
    next
      assume a: "(\<exists>a b. move_assign_throws T a b) \<and>
       (\<exists>zs. length zs = Suc (length ys) \<and> ?rec = Throws ElemExn ((A @ [Live y]) @ map Live zs @ B))"
      then obtain zs where zs: "length zs = Suc (length ys)"
        "?rec = Throws ElemExn ((A @ [Live y]) @ map Live zs @ B)"
        by blast
      have "?call = Throws ElemExn (A @ map Live (y # zs) @ B)"
        using step zs by simp
      moreover have "length (y # zs) = Suc (length (y # ys))"
        using zs by simp
      ultimately show ?thesis using a by blast
    qed
  qed
qed

lemma hd_snoc_append: "r \<noteq> [] \<Longrightarrow> hd (xs @ a # r) = hd (xs @ [a])"
  by (cases xs) auto

lemma move_backward_Live:
  "length A = first \<Longrightarrow> d_last = Suc (first + length ys) \<Longrightarrow>
   move_backward T (A @ map Live ys @ Live c # B) first (length ys) d_last =
       Ok (A @ Live (hd (map (moved_from T) ys @ [c])) # map Live ys @ B) \<or>
   ((\<exists>a b. move_assign_throws T a b) \<and>
    (\<exists>zs. length zs = Suc (length ys) \<and>
       move_backward T (A @ map Live ys @ Live c # B) first (length ys) d_last =
       Throws ElemExn (A @ map Live zs @ B)))"
proof (induction ys arbitrary: c B d_last rule: rev_induct)
  case Nil
  then show ?case by simp
next
  case (snoc y ys)
  let ?m = "moved_from T y"
  let ?n = "length ys"
  let ?buf = "A @ map Live (ys @ [y]) @ Live c # B"
  let ?call = "move_backward T ?buf first (length (ys @ [y])) d_last"
  let ?buf' = "A @ map Live ys @ Live ?m # Live y # B"
  let ?rec = "move_backward T ?buf' first ?n (d_last - 1)"
  have d: "d_last \<noteq> 0" "d_last - 1 = Suc (first + ?n)"
    using snoc.prems by simp_all
  have l1: "load ?buf (first + ?n) = Some y"
    using load_at [of "A @ map Live ys" "first + ?n" y "Live c # B"] snoc.prems by simp
  have l2: "load ?buf (d_last - 1) = Some c"
    using load_at [of "A @ map Live ys @ [Live y]" "d_last - 1" c B] snoc.prems by simp
  have u1: "?buf[d_last - 1 := Live y] = A @ map Live ys @ Live y # Live y # B"
    using update_at [of "A @ map Live ys @ [Live y]" "d_last - 1" "Live c" B "Live y"] snoc.prems
    by simp
  have u2: "(A @ map Live ys @ Live y # Live y # B)[first + ?n := Live ?m] = ?buf'"
    using update_at [of "A @ map Live ys" "first + ?n" "Live y" "Live y # B" "Live ?m"] snoc.prems
    by simp
  have len: "length (ys @ [y]) = Suc ?n"
    by simp
  show ?case
  proof (cases "move_assign_throws T c y")
    case True
    then have "?call = Throws ElemExn ?buf"
      unfolding len using l1 l2 d by (simp add: move_assign_def)
    then have "?call = Throws ElemExn (A @ map Live (ys @ [y, c]) @ B)"
      by simp
    moreover have "length (ys @ [y, c]) = Suc (length (ys @ [y]))"
      by simp
    ultimately show ?thesis using True by blast
  next
    case False
    then have step: "?call = ?rec"
      unfolding len using l1 l2 d u1 u2 by (simp add: move_assign_def)
    have IH: "?rec = Ok (A @ Live (hd (map (moved_from T) ys @ [?m])) # map Live ys @ Live y # B) \<or>
      ((\<exists>a b. move_assign_throws T a b) \<and>
       (\<exists>zs. length zs = Suc ?n \<and> ?rec = Throws ElemExn (A @ map Live zs @ Live y # B)))"
      by (rule snoc.IH) (simp_all add: snoc.prems)
    then show ?thesis
    proof
      assume "?rec = Ok (A @ Live (hd (map (moved_from T) ys @ [?m])) # map Live ys @ Live y # B)"
      with step show ?thesis by (simp add: hd_snoc_append)
    next
      assume a: "(\<exists>a b. move_assign_throws T a b) \<and>
       (\<exists>zs. length zs = Suc ?n \<and> ?rec = Throws ElemExn (A @ map Live zs @ Live y # B))"
      then obtain zs where zs: "length zs = Suc ?n"
        "?rec = Throws ElemExn (A @ map Live zs @ Live y # B)"
        by blast
      have "?call = Throws ElemExn (A @ map Live (zs @ [y]) @ B)"
        using step zs by simp
      moreover have "length (zs @ [y]) = Suc (length (ys @ [y]))"
        using zs by simp
      ultimately show ?thesis using a by blast
    qed
  qed
qed

section \<open>Vectors that satisfy the invariant\<close>

lemma vec_simps [simp]:
  "slots (vec xs k) = map Live xs @ replicate k Raw"
  "size' (vec xs k) = length xs"
  "capacity' (data' (vec xs k)) = length xs + k"
  by (simp_all add: vec_def slots_def)

lemma vec_eqI:
  "slots v = map Live xs @ replicate k Raw \<Longrightarrow> size' v = length xs \<Longrightarrow>
   capacity' (data' v) = length xs + k \<Longrightarrow> v = vec xs k"
  by (simp add: vec_def slots_def)

lemma with_slots_vec:
  "b = map Live ys @ replicate j Raw \<Longrightarrow> length ys + j = length xs + k \<Longrightarrow>
   (with_slots (vec xs k) b)\<lparr>size' := length ys\<rparr> = vec ys j"
  by (simp add: vec_def with_slots_def)

lemma with_slots_vec_same:
  "b = map Live ys @ replicate k Raw \<Longrightarrow> length ys = length xs \<Longrightarrow>
   with_slots (vec xs k) b = vec ys k"
  by (simp add: vec_def with_slots_def)

lemma live_values_append [simp]: "live_values (a @ b) = live_values a @ live_values b"
  by (induction a rule: live_values.induct) auto

lemma live_values_map_Live [simp]: "live_values (map Live xs) = xs"
  by (induction xs) auto

lemma live_values_replicate_Raw [simp]: "live_values (replicate k Raw) = []"
  by (induction k) auto

lemma elements_vec [simp]: "elements (vec xs k) = xs"
  by (simp add: elements_def)

lemma Size_vec [simp]: "Size (vec xs k) = length xs"
  by (simp add: Size_def)

lemma Capacity_vec [simp]: "Capacity (vec xs k) = length xs + k"
  by (simp add: Capacity_def)

lemma all_live_map: "list_all is_live ss \<Longrightarrow> ss = map Live (live_values ss)"
  by (induction ss rule: live_values.induct) auto

lemma none_live_replicate: "list_all (\<lambda>s. \<not> is_live s) ss \<Longrightarrow> ss = replicate (length ss) Raw"
  by (induction ss rule: live_values.induct) auto

lemma vector_inv_vec [simp]: "vector_inv (vec xs k) \<longleftrightarrow> length xs + k \<le> SIZE_MAX"
  by (auto simp: vector_inv_def list_all_iff)

lemma vector_inv_vecE:
  assumes "vector_inv v"
  obtains xs k where "v = vec xs k" and "length xs + k \<le> SIZE_MAX"
proof -
  let ?n = "size' v"
  let ?xs = "live_values (take ?n (slots v))"
  let ?k = "capacity' (data' v) - ?n"
  from assms have a: "length (slots v) = capacity' (data' v)" "capacity' (data' v) \<le> SIZE_MAX"
    "?n \<le> capacity' (data' v)" "list_all is_live (take ?n (slots v))"
    "list_all (\<lambda>s. \<not> is_live s) (drop ?n (slots v))"
    by (simp_all add: vector_inv_def)
  have t: "take ?n (slots v) = map Live ?xs"
    using a(4) by (rule all_live_map)
  have d: "drop ?n (slots v) = replicate ?k Raw"
    using none_live_replicate [OF a(5)] a(1) by simp
  have "length (map Live ?xs) = ?n"
    using t a(1,3) by (metis length_take min.absorb2)
  then have len: "length ?xs = ?n"
    by simp
  have "slots v = take ?n (slots v) @ drop ?n (slots v)"
    by simp
  then have s: "slots v = map Live ?xs @ replicate ?k Raw"
    using t d by simp
  have "v = vec ?xs ?k"
    using s len a(3) by (intro vec_eqI) simp_all
  moreover have "length ?xs + ?k \<le> SIZE_MAX"
    using len a(2,3) by simp
  ultimately show ?thesis by (rule that)
qed

lemma PopBack_vec: "PopBack (vec (xs @ [x]) k) = Ok (vec xs (Suc k))"
proof -
  have "destroy_at ((map Live xs) @ Live x # replicate k Raw) (length xs)
          = Some (map Live xs @ Raw # replicate k Raw)"
    by simp
  then show ?thesis
    by (simp add: PopBack_def vec_def with_slots_def slots_def)
qed

lemma Erase_vec:
  "Erase T (vec (pre @ c # ys) k) (length pre) = Ok (vec (pre @ ys) (Suc k)) \<or>
   ((\<exists>a b. move_assign_throws T a b) \<and>
    (\<exists>zs. length zs = length (pre @ c # ys) \<and>
       Erase T (vec (pre @ c # ys) k) (length pre) = Throws ElemExn (vec zs k)))"
proof -
  let ?v = "vec (pre @ c # ys) k"
  let ?mv = "move_n T (map Live pre @ Live c # map Live ys @ replicate k Raw)
               (Suc (length pre)) (length ys) (length pre)"
  have E: "Erase T ?v (length pre) =
     (case ?mv of
        Undefined \<Rightarrow> Undefined
      | Throws e b \<Rightarrow> Throws e (with_slots ?v b)
      | Ok b \<Rightarrow> PopBack (with_slots ?v b))"
    by (simp add: Erase_def)
  have "?mv = Ok (map Live pre @ map Live ys @
                   Live (last (c # map (moved_from T) ys)) # replicate k Raw) \<or>
    ((\<exists>a b. move_assign_throws T a b) \<and>
     (\<exists>zs. length zs = Suc (length ys) \<and>
        ?mv = Throws ElemExn (map Live pre @ map Live zs @ replicate k Raw)))"
    by (rule move_n_Live) simp_all
  then show ?thesis
  proof
    assume ok: "?mv = Ok (map Live pre @ map Live ys @
                   Live (last (c # map (moved_from T) ys)) # replicate k Raw)"
    let ?l = "last (c # map (moved_from T) ys)"
    have "with_slots ?v (map Live pre @ map Live ys @ Live ?l # replicate k Raw)
            = vec ((pre @ ys) @ [?l]) k"
      by (rule with_slots_vec_same) simp_all
    then have "Erase T ?v (length pre) = Ok (vec (pre @ ys) (Suc k))"
      using E ok PopBack_vec [of "pre @ ys" ?l k] by simp
    then show ?thesis ..
  next
    assume a: "(\<exists>a b. move_assign_throws T a b) \<and>
     (\<exists>zs. length zs = Suc (length ys) \<and>
        ?mv = Throws ElemExn (map Live pre @ map Live zs @ replicate k Raw))"
    then obtain zs where zs: "length zs = Suc (length ys)"
      "?mv = Throws ElemExn (map Live pre @ map Live zs @ replicate k Raw)"
      by blast
    have "with_slots ?v (map Live pre @ map Live zs @ replicate k Raw) = vec (pre @ zs) k"
      using zs(1) by (intro with_slots_vec_same) simp_all
    then have "Erase T ?v (length pre) = Throws ElemExn (vec (pre @ zs) k)"
      using E zs(2) by simp
    moreover have "length (pre @ zs) = length (pre @ c # ys)"
      using zs(1) by simp
    ultimately show ?thesis using a by blast
  qed
qed

section \<open>Insertion without reallocation\<close>

lemma size_t_id: "n \<le> SIZE_MAX \<Longrightarrow> size_t n = n"
  by (simp add: size_t_def SIZE_MAX_def)

lemma Emplace_None_in_place:
  "pos \<le> size' v \<Longrightarrow> size' v \<noteq> capacity' (data' v) \<Longrightarrow> Emplace T al v pos None = Throws ElemExn v"
  by (simp add: Emplace_def)

lemma Emplace_end_vec:
  assumes "length xs + Suc k \<le> SIZE_MAX"
  shows "Emplace T al (vec xs (Suc k)) (length xs) (Some x) = Ok (vec (xs @ [x]) k)"
proof -
  have c: "construct_at (map Live xs @ Raw # replicate k Raw) (length xs) x
          = Some (map Live xs @ Live x # replicate k Raw)"
    by simp
  have s: "size_t (Suc (length xs)) = Suc (length xs)"
    using assms by (intro size_t_id) simp
  have "(with_slots (vec xs (Suc k)) (map Live xs @ Live x # replicate k Raw))
          \<lparr>size' := length (xs @ [x])\<rparr> = vec (xs @ [x]) k"
    by (rule with_slots_vec) simp_all
  then show ?thesis
    using c s by (simp add: Emplace_def)
qed

lemma Emplace_shift_vec:
  assumes "length (pre @ mid @ [bk]) + Suc k \<le> SIZE_MAX"
  shows "Emplace T al (vec (pre @ mid @ [bk]) (Suc k)) (length pre) (Some x)
           = Ok (vec (pre @ x # mid @ [bk]) k) \<or>
         (\<not> nothrow_move_constructible T \<and> (\<exists>a. move_ctor_throws T a) \<and>
          Emplace T al (vec (pre @ mid @ [bk]) (Suc k)) (length pre) (Some x)
            = Throws ElemExn (vec (pre @ mid @ [bk]) (Suc k))) \<or>
         ((\<exists>a b. move_assign_throws T a b) \<and>
          (\<exists>zs. length zs = Suc (length (pre @ mid @ [bk])) \<and>
             Emplace T al (vec (pre @ mid @ [bk]) (Suc k)) (length pre) (Some x)
               = Throws ElemExn (with_slots (vec (pre @ mid @ [bk]) (Suc k))
                                   (map Live zs @ replicate k Raw))))"
proof -
  let ?xs = "pre @ mid @ [bk]"
  let ?v = "vec ?xs (Suc k)"
  let ?n = "length ?xs"
  let ?m = "moved_from T bk"
  let ?call = "Emplace T al ?v (length pre) (Some x)"
  let ?b1 = "map Live pre @ map Live mid @ Live ?m # Live bk # replicate k Raw"
  let ?mb = "move_backward T ?b1 (length pre) (length mid) ?n"
  have sl: "slots ?v = map Live pre @ map Live mid @ Live bk # Raw # replicate k Raw"
    by simp
  have n1: "?n - 1 = length pre + length mid" "length pre \<noteq> ?n" "length pre \<le> ?n"
    "?n \<noteq> ?n + Suc k" "?n - 1 - length pre = length mid"
    by simp_all
  have l: "load (slots ?v) (?n - 1) = Some bk"
    unfolding sl n1
    using load_at [of "map Live pre @ map Live mid" "length pre + length mid" bk
                      "Raw # replicate k Raw"]
    by simp
  have u: "(slots ?v)[?n - 1 := Live ?m]
             = map Live pre @ map Live mid @ Live ?m # Raw # replicate k Raw"
    unfolding sl n1
    using update_at [of "map Live pre @ map Live mid" "length pre + length mid" "Live bk"
                        "Raw # replicate k Raw" "Live ?m"]
    by simp
  have c: "construct_at (map Live pre @ map Live mid @ Live ?m # Raw # replicate k Raw) ?n bk
             = Some ?b1"
    using construct_at_Raw [of "map Live pre @ map Live mid @ [Live ?m]" ?n "replicate k Raw" bk]
    by simp
  have s: "size_t (?n + 1) = ?n + 1"
    using assms by (intro size_t_id) simp
  show ?thesis
  proof (cases "\<not> nothrow_move_constructible T \<and> move_ctor_throws T bk")
    case True
    then have "?call = Throws ElemExn ?v"
      using l n1 by (simp add: Emplace_def move_construct_def del: vec_simps(1))
    with True show ?thesis by blast
  next
    case False
    then have mc: "move_construct T bk = Some (bk, ?m)"
      by (auto simp: move_construct_def)
    have E: "?call =
      (case ?mb of
         Undefined \<Rightarrow> Undefined
       | Throws e b2 \<Rightarrow> Throws e (with_slots ?v b2)
       | Ok b2 \<Rightarrow>
           (case load b2 (length pre) of
              None \<Rightarrow> Undefined
            | Some cur \<Rightarrow>
                (case move_assign T cur x of
                   None \<Rightarrow> Throws ElemExn (with_slots ?v b2)
                 | Some (z, left') \<Rightarrow>
                     Ok ((with_slots ?v (b2[length pre := Live z]))\<lparr>size' := size_t (size' ?v + 1)\<rparr>))))"
      using l u c mc n1 by (simp add: Emplace_def del: vec_simps(1))
    let ?h = "hd (map (moved_from T) mid @ [?m])"
    let ?b2 = "map Live pre @ Live ?h # map Live mid @ Live bk # replicate k Raw"
    have "?mb = Ok ?b2 \<or>
      ((\<exists>a b. move_assign_throws T a b) \<and>
       (\<exists>zs. length zs = Suc (length mid) \<and>
          ?mb = Throws ElemExn (map Live pre @ map Live zs @ Live bk # replicate k Raw)))"
      by (rule move_backward_Live) simp_all
    then show ?thesis
    proof
      assume ok: "?mb = Ok ?b2"
      have l2: "load ?b2 (length pre) = Some ?h"
        by simp
      have u2: "?b2[length pre := Live x] = map Live (pre @ x # mid @ [bk]) @ replicate k Raw"
        by simp
      show ?thesis
      proof (cases "move_assign_throws T ?h x")
        case True
        then have "?call = Throws ElemExn (with_slots ?v ?b2)"
          using E ok l2 by (simp add: move_assign_def)
        then have "?call = Throws ElemExn (with_slots ?v
                      (map Live (pre @ ?h # mid @ [bk]) @ replicate k Raw))"
          by simp
        moreover have "length (pre @ ?h # mid @ [bk]) = Suc ?n"
          by simp
        ultimately show ?thesis using True by blast
      next
        case False
        then have "?call = Ok ((with_slots ?v (map Live (pre @ x # mid @ [bk]) @ replicate k Raw))
                               \<lparr>size' := length (pre @ x # mid @ [bk])\<rparr>)"
          using E ok l2 u2 s by (simp add: move_assign_def)
        moreover have "(with_slots ?v (map Live (pre @ x # mid @ [bk]) @ replicate k Raw))
                               \<lparr>size' := length (pre @ x # mid @ [bk])\<rparr>
                         = vec (pre @ x # mid @ [bk]) k"
          by (rule with_slots_vec) simp_all
        ultimately show ?thesis by simp
      qed
    next
      assume a: "(\<exists>a b. move_assign_throws T a b) \<and>
       (\<exists>zs. length zs = Suc (length mid) \<and>
          ?mb = Throws ElemExn (map Live pre @ map Live zs @ Live bk # replicate k Raw))"
      then obtain zs where zs: "length zs = Suc (length mid)"
        "?mb = Throws ElemExn (map Live pre @ map Live zs @ Live bk # replicate k Raw)"
        by blast
      have "?call = Throws ElemExn (with_slots ?v
                      (map Live pre @ map Live zs @ Live bk # replicate k Raw))"
        using E zs(2) by simp
      then have "?call = Throws ElemExn (with_slots ?v
                      (map Live (pre @ zs @ [bk]) @ replicate k Raw))"
        by simp
      moreover have "length (pre @ zs @ [bk]) = Suc ?n"
        using zs(1) by simp
      ultimately show ?thesis using a by blast
    qed
  qed
qed

section \<open>Insertion with reallocation\<close>

lemma replicate_split: "i < N \<Longrightarrow> replicate N s = replicate i s @ s # replicate (N - i - 1) s"
  using replicate_add [of i "Suc (N - i - 1)" s] by simp

lemma Realocate_vec:
  fixes pre post :: "'a list"
  defines "n \<equiv> length (pre @ post)"
  defines "N \<equiv> (if n = 0 then 1 else 2 * n)"
  assumes fit: "2 * n \<le> SIZE_MAX" and al: "al N"
  shows "Realocate T al (vec (pre @ post) 0) (length pre) (Some x)
           = Ok (vec (pre @ x # post) (N - n - 1)) \<or>
         (((nothrow_move_constructible T \<or> \<not> copy_constructible T) \<and>
             \<not> nothrow_move_constructible T \<and> (\<exists>a. move_ctor_throws T a) \<or>
           \<not> (nothrow_move_constructible T \<or> \<not> copy_constructible T) \<and>
             (\<exists>a. copy_ctor_throws T a)) \<and>
          (\<exists>zs. length zs = n \<and>
             ((nothrow_move_constructible T \<or> \<not> copy_constructible T) \<or> zs = pre @ post) \<and>
             Realocate T al (vec (pre @ post) 0) (length pre) (Some x)
               = Throws ElemExn (vec zs 0)))"
proof -
  let ?v = "vec (pre @ post) 0"
  let ?i = "length pre"
  let ?call = "Realocate T al ?v ?i (Some x)"
  let ?r = "N - n - 1"
  let ?nb = "replicate ?i Raw @ Live x # replicate (length post) Raw @ replicate ?r Raw"
  let ?mv = "nothrow_move_constructible T \<or> \<not> copy_constructible T"
  have n: "n = ?i + length post"
    by (simp add: n_def)
  have Nn: "N = 1 \<and> n = 0 \<or> N = 2 * n \<and> 0 < n"
    by (auto simp: N_def)
  have N: "N \<noteq> 0" "?i < N" "N - ?i - 1 = length post + ?r" "n + 1 \<le> N"
    using Nn n by (arith, arith, arith, arith)
  have cap: "(if size' ?v = 0 then 1 else size_t (size' ?v * 2)) = N"
    using fit by (auto simp: N_def n_def size_t_id mult.commute)
  have rm: "RawMemory_sized al N = Some \<lparr>buffer' = replicate N Raw, capacity' = N\<rparr>"
    using N(1) al by (simp add: RawMemory_sized_def Allocate_def)
  have "replicate N Raw = replicate ?i Raw @ Raw # replicate (N - ?i - 1) (Raw :: 'a slot)"
    using N(2) by (rule replicate_split)
  then have rs: "replicate N Raw = replicate ?i Raw @ (Raw :: 'a slot) # replicate (length post) Raw @ replicate ?r Raw"
    unfolding N(3) by (simp add: replicate_add)
  have c: "construct_at (replicate N Raw) ?i x = Some ?nb"
    unfolding rs by simp
  have "n + 1 \<le> SIZE_MAX"
    using fit by (cases "n = 0") (simp_all add: SIZE_MAX_def)
  then have "size_t (n + 1) = n + 1"
    by (rule size_t_id)
  then have st: "size_t (size' ?v + 1) = n + 1"
    by (simp add: n_def)
  define fin :: "'a slot list \<Rightarrow> 'a slot list \<Rightarrow> ('a vector, 'a vector) outcome"
    where "fin = (\<lambda>(old :: 'a slot list) b.
     (case destroy_n old 0 (size' ?v) of
        None \<Rightarrow> Undefined
      | Some old' \<Rightarrow>
          (case RawMemory_Swap (data' ?v, \<lparr>buffer' = replicate N Raw, capacity' = N\<rparr>\<lparr>buffer' := b\<rparr>) of
             (d, released) \<Rightarrow> Ok \<lparr>data' = d, size' = size_t (size' ?v + 1)\<rparr>)))"
  let ?b = "map Live pre @ Live x # map Live post @ replicate ?r Raw"
  have fin: "fin (map Live ys) ?b = Ok (vec (pre @ x # post) ?r)" if "length ys = n" for ys
  proof -
    have "destroy_n ([] @ map Live ys @ []) 0 (length ys) = Some ([] @ replicate (length ys) Raw @ [])"
      by (rule destroy_n_Live) simp
    then have "destroy_n (map Live ys) 0 (size' ?v) = Some (replicate (length ys) Raw)"
      using that by (simp add: n_def)
    moreover have "\<lparr>data' = \<lparr>buffer' = ?b, capacity' = N\<rparr>, size' = n + 1\<rparr> = vec (pre @ x # post) ?r"
      using N(4) by (simp add: vec_def n_def)
    ultimately show ?thesis
      using st by (simp add: RawMemory_Swap_def fin_def)
  qed
  have E: "?call =
     (case
        (if ?mv then
           (case uninitialized_move_n T (slots ?v) 0 ?i ?nb 0 of
              Undefined \<Rightarrow> Undefined
            | Throws e r \<Rightarrow> Throws e r
            | Ok (old, b) \<Rightarrow> uninitialized_move_n T old ?i (size' ?v - ?i) b (?i + 1))
         else
           (case uninitialized_copy_n T (slots ?v) 0 ?i ?nb 0 of
              Undefined \<Rightarrow> Undefined
            | Throws e b \<Rightarrow> Throws e (slots ?v, b)
            | Ok b \<Rightarrow>
                (case uninitialized_copy_n T (slots ?v) ?i (size' ?v - ?i) b (?i + 1) of
                   Undefined \<Rightarrow> Undefined
                 | Throws e b' \<Rightarrow> Throws e (slots ?v, b')
                 | Ok b' \<Rightarrow> Ok (slots ?v, b'))))
      of
        Undefined \<Rightarrow> Undefined
      | Throws e (old, b) \<Rightarrow>
          (case destroy_at b ?i of
             None \<Rightarrow> Undefined
           | Some b' \<Rightarrow> Throws e (with_slots ?v old))
      | Ok (old, b) \<Rightarrow> fin old b)"
    unfolding Realocate_def cap rm fin_def using N(2) c by (simp del: vec_simps)
  have da1: "destroy_at ?nb ?i = Some (replicate ?i Raw @ Raw # replicate (length post) Raw @ replicate ?r Raw)"
    by simp
  have da2: "destroy_at (map Live pre @ Live x # replicate (length post) Raw @ replicate ?r Raw) ?i
               = Some (map Live pre @ Raw # replicate (length post) Raw @ replicate ?r Raw)"
    by simp
  have ws: "with_slots ?v (map Live zs) = vec zs 0" if "length zs = n" for zs
    using that by (intro with_slots_vec_same) (simp_all add: n_def)
  have sz: "size' ?v - ?i = length post"
    by simp
  show ?thesis
  proof (cases ?mv)
    case True
    let ?m1 = "uninitialized_move_n T ([] @ map Live pre @ map Live post) 0 (length pre)
                 ([] @ replicate (length pre) Raw @ Live x # replicate (length post) Raw @ replicate ?r Raw) 0"
    have m1: "?m1 = Ok ([] @ map Live (map (moved_from T) pre) @ map Live post,
                       [] @ map Live pre @ Live x # replicate (length post) Raw @ replicate ?r Raw) \<or>
      (\<not> nothrow_move_constructible T \<and> (\<exists>a\<in>set pre. move_ctor_throws T a) \<and>
       (\<exists>ys. length ys = length pre \<and>
          ?m1 = Throws ElemExn ([] @ map Live ys @ map Live post,
                  [] @ replicate (length pre) Raw @ Live x # replicate (length post) Raw @ replicate ?r Raw)))"
      by (rule uninitialized_move_n_Raw) simp_all
    let ?old1 = "map Live (map (moved_from T) pre)"
    let ?m2 = "uninitialized_move_n T (?old1 @ map Live post @ []) (length pre) (length post)
                 ((map Live pre @ [Live x]) @ replicate (length post) Raw @ replicate ?r Raw) (length pre + 1)"
    have m2: "?m2 = Ok (?old1 @ map Live (map (moved_from T) post) @ [],
                       (map Live pre @ [Live x]) @ map Live post @ replicate ?r Raw) \<or>
      (\<not> nothrow_move_constructible T \<and> (\<exists>a\<in>set post. move_ctor_throws T a) \<and>
       (\<exists>ys. length ys = length post \<and>
          ?m2 = Throws ElemExn (?old1 @ map Live ys @ [],
                  (map Live pre @ [Live x]) @ replicate (length post) Raw @ replicate ?r Raw)))"
      by (rule uninitialized_move_n_Raw) simp_all
    from m1 show ?thesis
    proof
      assume ok1: "?m1 = Ok ([] @ map Live (map (moved_from T) pre) @ map Live post,
                       [] @ map Live pre @ Live x # replicate (length post) Raw @ replicate ?r Raw)"
      from m2 show ?thesis
      proof
        assume ok2: "?m2 = Ok (?old1 @ map Live (map (moved_from T) post) @ [],
                       (map Live pre @ [Live x]) @ map Live post @ replicate ?r Raw)"
        have "?call = fin (map Live (map (moved_from T) (pre @ post))) ?b"
          unfolding E using True ok1 ok2 by simp
        also have "\<dots> = Ok (vec (pre @ x # post) ?r)"
          by (rule fin) (simp add: n_def)
        finally show ?thesis ..
      next
        assume a: "\<not> nothrow_move_constructible T \<and> (\<exists>a\<in>set post. move_ctor_throws T a) \<and>
          (\<exists>ys. length ys = length post \<and>
            ?m2 = Throws ElemExn (?old1 @ map Live ys @ [],
                  (map Live pre @ [Live x]) @ replicate (length post) Raw @ replicate ?r Raw))"
        then obtain ys where ys: "length ys = length post"
          "?m2 = Throws ElemExn (?old1 @ map Live ys @ [],
                  (map Live pre @ [Live x]) @ replicate (length post) Raw @ replicate ?r Raw)"
          by blast
        have "?call = Throws ElemExn (with_slots ?v (map Live (map (moved_from T) pre @ ys)))"
          unfolding E using True ok1 ys(2) da2 by simp
        also have "\<dots> = Throws ElemExn (vec (map (moved_from T) pre @ ys) 0)"
          using ys(1) ws [of "map (moved_from T) pre @ ys"] by (simp add: n_def)
        finally have "?call = Throws ElemExn (vec (map (moved_from T) pre @ ys) 0)" .
        moreover have "length (map (moved_from T) pre @ ys) = n"
          using ys(1) by (simp add: n_def)
        ultimately show ?thesis using a True by blast
      qed
    next
      assume a: "\<not> nothrow_move_constructible T \<and> (\<exists>a\<in>set pre. move_ctor_throws T a) \<and>
       (\<exists>ys. length ys = length pre \<and>
          ?m1 = Throws ElemExn ([] @ map Live ys @ map Live post,
                  [] @ replicate (length pre) Raw @ Live x # replicate (length post) Raw @ replicate ?r Raw))"
      then obtain ys where ys: "length ys = length pre"
        "?m1 = Throws ElemExn ([] @ map Live ys @ map Live post,
                  [] @ replicate (length pre) Raw @ Live x # replicate (length post) Raw @ replicate ?r Raw)"
        by blast
      have "?call = Throws ElemExn (with_slots ?v (map Live (ys @ post)))"
        unfolding E using True ys(2) da1 by simp
      also have "\<dots> = Throws ElemExn (vec (ys @ post) 0)"
        using ys(1) ws [of "ys @ post"] by (simp add: n_def)
      finally have "?call = Throws ElemExn (vec (ys @ post) 0)" .
      moreover have "length (ys @ post) = n"
        using ys(1) by (simp add: n_def)
      ultimately show ?thesis using a True by blast
    qed
  next
    case False
    let ?c1 = "uninitialized_copy_n T ([] @ map Live pre @ map Live post) 0 (length pre)
                 ([] @ replicate (length pre) Raw @ Live x # replicate (length post) Raw @ replicate ?r Raw) 0"
    have c1: "?c1 = (if \<exists>a\<in>set pre. copy_ctor_throws T a
        then Throws ElemExn ([] @ replicate (length pre) Raw @ Live x # replicate (length post) Raw @ replicate ?r Raw)
        else Ok ([] @ map Live pre @ Live x # replicate (length post) Raw @ replicate ?r Raw))"
      by (rule uninitialized_copy_n_Raw) simp_all
    let ?c2 = "uninitialized_copy_n T (map Live pre @ map Live post @ []) (length pre) (length post)
                 ((map Live pre @ [Live x]) @ replicate (length post) Raw @ replicate ?r Raw) (length pre + 1)"
    have c2: "?c2 = (if \<exists>a\<in>set post. copy_ctor_throws T a
        then Throws ElemExn ((map Live pre @ [Live x]) @ replicate (length post) Raw @ replicate ?r Raw)
        else Ok ((map Live pre @ [Live x]) @ map Live post @ replicate ?r Raw))"
      by (rule uninitialized_copy_n_Raw) simp_all
    have c1': "uninitialized_copy_n T (slots ?v) 0 ?i ?nb 0 = (if \<exists>a\<in>set pre. copy_ctor_throws T a
        then Throws ElemExn ?nb
        else Ok (map Live pre @ Live x # replicate (length post) Raw @ replicate ?r Raw))"
      using c1 by simp
    have c2': "uninitialized_copy_n T (slots ?v) ?i (length post)
                 (map Live pre @ Live x # replicate (length post) Raw @ replicate ?r Raw) (Suc ?i)
        = (if \<exists>a\<in>set post. copy_ctor_throws T a
        then Throws ElemExn (map Live pre @ Live x # replicate (length post) Raw @ replicate ?r Raw)
        else Ok ?b)"
      using c2 by simp
    have self: "with_slots ?v (slots ?v) = ?v"
      by (simp add: with_slots_def slots_def)
    show ?thesis
    proof (cases "\<exists>a\<in>set (pre @ post). copy_ctor_throws T a")
      case thr: True
      have "?call = Throws ElemExn (with_slots ?v (slots ?v))"
      proof (cases "\<exists>a\<in>set pre. copy_ctor_throws T a")
        case True
        then show ?thesis
          unfolding E using False c1' da1 by (simp del: vec_simps(1))
      next
        case np: False
        with thr have "\<exists>a\<in>set post. copy_ctor_throws T a"
          by auto
        then show ?thesis
          unfolding E using False np c1' c2' da2 by (simp del: vec_simps(1))
      qed
      then have "?call = Throws ElemExn (vec (pre @ post) 0)"
        unfolding self .
      moreover have "length (pre @ post) = n"
        by (simp add: n_def)
      ultimately show ?thesis using False thr by blast
    next
      case nothr: False
      have "?call = fin (slots ?v) ?b"
        unfolding E using False c1' c2' nothr by (simp del: vec_simps(1))
      then have "?call = fin (map Live (pre @ post)) ?b"
        by simp
      also have "\<dots> = Ok (vec (pre @ x # post) ?r)"
        by (rule fin) (simp add: n_def)
      finally show ?thesis ..
    qed
  qed
qed

section \<open>Moves and self-assignment\<close>

lemma Vector_move_eq: "Vector_move a = (a, Vector_default)"
  by (simp add: Vector_move_def RawMemory_move_def RawMemory_Swap_def RawMemory_default_def
      Vector_default_def)

lemma Swap_eq: "Swap (a, b) = (b, a)"
  by (simp add: Swap_def RawMemory_Swap_def)

text \<open>
  Claim C1, as amended. Move construction of a new vector from \<open>other\<close> gives the new vector
  the state of \<open>other\<close>, so its elements in their order, and leaves \<open>other\<close> empty, with
  size 0 and capacity 0. Move assignment of \<open>rhs\<close> to a different vector \<open>this\<close> is a swap:
  \<open>this\<close> gets the state of \<open>rhs\<close>, so its elements in their order, and \<open>rhs\<close> gets the
  former state of \<open>this\<close>; it is empty afterwards only when \<open>this\<close> was empty before.
\<close>

theorem moved_from_source:
  fixes st :: "'a store"
  shows "(st new = None \<and> st other = Some a \<longrightarrow>
      new_move st new other = Ok (st(new \<mapsto> a, other \<mapsto> Vector_default)) \<and>
      Size (Vector_default :: 'a vector) = 0 \<and> Capacity (Vector_default :: 'a vector) = 0) \<and>
   (st this = Some b \<and> st rhs = Some a' \<and> this \<noteq> rhs \<longrightarrow>
      assign_move st this rhs = Ok (st(this \<mapsto> a', rhs \<mapsto> b)))"
  by (simp add: new_move_def assign_move_def swap_at_def Vector_move_eq Swap_eq Size_def
      Capacity_def Vector_default_def RawMemory_default_def)

text \<open>The two moves on the objects of \<open>two_vectors\<close>.\<close>

theorem moved_from_source_witness:
  "new_move two_vectors 2 0 = Ok (two_vectors(2 \<mapsto> vec [1, 2] 0, 0 \<mapsto> Vector_default)) \<and>
   assign_move two_vectors 1 0 = Ok (two_vectors(1 \<mapsto> vec [1, 2] 0, 0 \<mapsto> vec [7] 0))"
  using moved_from_source [of two_vectors 2 0 "vec [1, 2] 0" 1 "vec [7] 0" 0 "vec [1, 2] 0"]
  by (simp add: two_vectors_def)

text \<open>
  Claim C1 as stated fails for move assignment: after \<open>[7]\<close> at address 1 is move-assigned
  \<open>[1, 2]\<close> from address 0, the source at address 0 holds \<open>[7]\<close>, with size 1 and capacity 1.
\<close>

theorem move_assign_source_not_empty:
  "assign_move two_vectors 1 0 = Ok (two_vectors(1 \<mapsto> vec [1, 2] 0, 0 \<mapsto> vec [7] 0)) \<and>
   Size (vec [7 :: nat] 0) = 1 \<and> Capacity (vec [7 :: nat] 0) = 1"
  by (simp add: assign_move_def swap_at_def Swap_eq two_vectors_def)

text \<open>
  Claim C10. Copy assignment and move assignment of a vector to itself change nothing: the
  object keeps its size, its capacity and its elements, and so does every other object.
\<close>

theorem self_assignment_unchanged:
  "st a = Some v \<Longrightarrow> assign_copy T al st a a = Ok st \<and> assign_move st a a = Ok st"
  by (simp add: assign_copy_def assign_move_def)

text \<open>Self-assignment of the vector at address 0.\<close>

theorem self_assignment_unchanged_witness:
  "assign_copy T_value always two_vectors 0 0 = Ok two_vectors \<and>
   assign_move two_vectors 0 0 = Ok two_vectors"
  using self_assignment_unchanged [of two_vectors 0 "vec [1, 2] 0" T_value always]
  by (simp add: two_vectors_def)

lemma Realocate_None:
  fixes v :: "'a vector"
  shows "Realocate T al v idx None =
     (case (RawMemory_sized al (if size' v = 0 then 1 else size_t (size' v * 2))
              :: 'a raw_memory option) of
        None \<Rightarrow> Throws BadAlloc v
      | Some new_data \<Rightarrow> if idx < capacity' new_data then Throws ElemExn v else Undefined)"
  by (simp add: Realocate_def split: option.splits)

lemma RawMemory_sized_capacity:
  "RawMemory_sized al n = Some d \<Longrightarrow> capacity' d = n \<and> length (buffer' d) = n"
  by (auto simp: RawMemory_sized_def Allocate_def split: option.splits if_splits)

lemma RawMemory_sized_eq:
  "n \<noteq> 0 \<Longrightarrow> RawMemory_sized al n =
     (if al n then Some \<lparr>buffer' = replicate n Raw, capacity' = n\<rparr> else None)"
  by (simp add: RawMemory_sized_def Allocate_def)

section \<open>A reallocating insertion that returns has doubled the capacity\<close>

lemma construct_at_length: "construct_at buf i x = Some b \<Longrightarrow> length b = length buf \<and> i < length buf"
  by (auto simp: construct_at_def split: if_splits)

lemma Realocate_Ok_fits:
  fixes v :: "'a vector"
  assumes ok: "Realocate T al v idx mk = Ok v'" and idx: "idx \<le> size' v"
  shows "size' v + 1 \<le> capacity' (data' v') \<and>
         capacity' (data' v') = (if size' v = 0 then 1 else size_t (size' v * 2)) \<and>
         (capacity' (data' v') \<noteq> 0 \<longrightarrow> al (capacity' (data' v'))) \<and> mk \<noteq> None"
proof -
  let ?N = "if size' v = 0 then 1 else size_t (size' v * 2)"
  from ok obtain nd :: "'a raw_memory" where nd: "RawMemory_sized al ?N = Some nd"
    by (auto simp: Realocate_def split: option.splits)
  then have cap: "capacity' nd = ?N" "length (buffer' nd) = ?N"
    using RawMemory_sized_capacity by blast+
  from ok nd obtain x where mk: "mk = Some x" and lt: "idx < ?N"
    using cap(1) by (auto simp: Realocate_def split: option.splits if_splits)
  from ok nd mk lt obtain nb where nb: "construct_at (buffer' nd) idx x = Some nb"
    using cap(1) by (auto simp: Realocate_def split: option.splits if_splits)
  then have lnb: "length nb = ?N"
    using construct_at_length cap(2) by metis
  let ?rel = "if nothrow_move_constructible T \<or> \<not> copy_constructible T then
                             (case uninitialized_move_n T (slots v) 0 idx nb 0 of
                                Undefined \<Rightarrow> Undefined
                              | Throws e r \<Rightarrow> Throws e r
                              | Ok (old, b) \<Rightarrow>
                                  uninitialized_move_n T old idx (size' v - idx) b (idx + 1))
                           else
                             (case uninitialized_copy_n T (slots v) 0 idx nb 0 of
                                Undefined \<Rightarrow> Undefined
                              | Throws e b \<Rightarrow> Throws e (slots v, b)
                              | Ok b \<Rightarrow>
                                  (case uninitialized_copy_n T (slots v) idx (size' v - idx) b
                                          (idx + 1) of
                                     Undefined \<Rightarrow> Undefined
                                   | Throws e b' \<Rightarrow> Throws e (slots v, b')
                                   | Ok b' \<Rightarrow> Ok (slots v, b')))"
  have R: "Realocate T al v idx mk =
     (case ?rel of
        Undefined \<Rightarrow> Undefined
      | Throws e (old, b) \<Rightarrow>
          (case destroy_at b idx of
             None \<Rightarrow> Undefined
           | Some b' \<Rightarrow> Throws e (with_slots v old))
      | Ok (old, b) \<Rightarrow>
          (case destroy_n old 0 (size' v) of
             None \<Rightarrow> Undefined
           | Some old' \<Rightarrow>
               (case RawMemory_Swap (data' v, nd\<lparr>buffer' := b\<rparr>) of
                  (d, released) \<Rightarrow> Ok \<lparr>data' = d, size' = size_t (size' v + 1)\<rparr>)))"
    unfolding Realocate_def nd using mk lt cap(1) nb by simp
  from ok obtain old b where rel: "?rel = Ok (old, b)"
    and v': "v' = \<lparr>data' = nd\<lparr>buffer' := b\<rparr>, size' = size_t (size' v + 1)\<rparr>"
    unfolding R
    by (cases ?rel) (auto simp: RawMemory_Swap_def split: option.splits prod.splits)
  have fit: "size' v + 1 \<le> ?N"
  proof (cases "idx = size' v")
    case True
    with lt show ?thesis by simp
  next
    case False
    with idx have pos: "0 < size' v - idx"
      by simp
    show ?thesis
    proof (cases "nothrow_move_constructible T \<or> \<not> copy_constructible T")
      case True
      with rel obtain old1 b1 where
        m1: "uninitialized_move_n T (slots v) 0 idx nb 0 = Ok (old1, b1)" and
        m2: "uninitialized_move_n T old1 idx (size' v - idx) b1 (idx + 1) = Ok (old, b)"
        by (auto split: outcome.splits prod.splits)
      from uninitialized_move_n_bound [OF m1] uninitialized_move_n_bound [OF m2] pos lnb idx
      show ?thesis by simp
    next
      case False
      with rel obtain b1 where
        m1: "uninitialized_copy_n T (slots v) 0 idx nb 0 = Ok b1" and
        m2: "uninitialized_copy_n T (slots v) idx (size' v - idx) b1 (idx + 1) = Ok b"
        by (auto split: outcome.splits prod.splits)
      from uninitialized_copy_n_bound [OF m1] uninitialized_copy_n_bound [OF m2] pos lnb idx
      show ?thesis by simp
    qed
  qed
  have al: "al ?N" if "?N \<noteq> 0"
    using nd that by (auto simp: RawMemory_sized_def Allocate_def split: if_splits option.splits)
  from fit al cap(1) mk show ?thesis
    by (simp add: v')
qed

lemma double_mod_fits:
  fixes n M :: nat
  assumes "n < M" and "n + 1 \<le> (n * 2) mod M"
  shows "n * 2 < M"
proof (rule ccontr)
  assume "\<not> n * 2 < M"
  then have big: "M \<le> n * 2"
    by simp
  then have "(n * 2) mod M = (n * 2 - M) mod M"
    by (rule le_mod_geq)
  also have "\<dots> = n * 2 - M"
    using assms(1) by (intro mod_less) simp
  finally show False
    using assms by simp
qed

lemma size_t_double_fits:
  assumes "n \<le> SIZE_MAX" and "n + 1 \<le> size_t (n * 2)"
  shows "2 * n \<le> SIZE_MAX"
proof -
  have "n < 2 ^ 64"
    using assms(1) by (simp add: SIZE_MAX_def)
  then have "n * 2 < 2 ^ 64"
    using assms(2) unfolding size_t_def by (rule double_mod_fits)
  then show ?thesis
    by (simp add: SIZE_MAX_def)
qed

section \<open>What an insertion returns\<close>

lemma nothrowD:
  assumes "nothrow T"
  shows "\<not> copy_ctor_throws T x" "\<not> move_ctor_throws T x" "\<not> copy_assign_throws T c x"
    "\<not> move_assign_throws T c x"
  using assms by (simp_all add: nothrow_def)

text \<open>What \<open>Emplace\<close> returns, on every path, and that it returns when nothing throws.\<close>

lemma Emplace_Ok:
  fixes v :: "'a vector"
  assumes inv: "vector_inv v" and pos: "pos \<le> size' v" and ok: "Emplace T al v pos mk = Ok v'"
  shows "\<exists>x. mk = Some x \<and>
           v' = vec (take pos (elements v) @ x # drop pos (elements v))
                  (if size' v = capacity' (data' v) then max 1 (2 * size' v) - size' v - 1
                   else capacity' (data' v) - size' v - 1) \<and>
           vector_inv v'"
proof -
  from inv obtain xs k where v: "v = vec xs k" and fit: "length xs + k \<le> SIZE_MAX"
    by (rule vector_inv_vecE)
  define pre post where "pre = take pos xs" and "post = drop pos xs"
  have xs: "xs = pre @ post" and lp: "length pre = pos"
    using pos by (simp_all add: pre_def post_def v)
  show ?thesis
  proof (cases k)
    case 0
    have E: "Emplace T al v pos mk = Realocate T al v pos mk"
      using pos by (simp add: Emplace_def v 0)
    let ?n = "length xs"
    have "Realocate T al v pos mk = Ok v'"
      using ok E by simp
    from Realocate_Ok_fits [OF this pos]
    have f: "?n + 1 \<le> capacity' (data' v')"
      "capacity' (data' v') = (if ?n = 0 then 1 else size_t (?n * 2))"
      "capacity' (data' v') \<noteq> 0 \<longrightarrow> al (capacity' (data' v'))" "mk \<noteq> None"
      unfolding v by (simp, simp, blast, blast)
    then obtain x where mk: "mk = Some x"
      by auto
    have dbl: "2 * ?n \<le> SIZE_MAX"
    proof (cases "?n = 0")
      case True
      then show ?thesis by simp
    next
      case False
      with f(1,2) have "?n + 1 \<le> size_t (?n * 2)"
        by simp
      with fit show ?thesis
        by (intro size_t_double_fits) simp_all
    qed
    let ?N = "if length (pre @ post) = 0 then 1 else 2 * length (pre @ post)"
    have pos_n: "0 < ?n" if "xs \<noteq> []"
      using that by simp
    have N: "capacity' (data' v') = ?N"
      using f(2) dbl by (simp add: size_t_id mult.commute flip: xs)
    have "?N \<noteq> 0"
      using pos_n by (simp flip: xs)
    then have al: "al ?N"
      using f(3) unfolding N by blast
    from Realocate_vec [of pre post al T x] dbl al
    have "Realocate T al (vec (pre @ post) 0) (length pre) (Some x)
            = Ok (vec (pre @ x # post) (?N - length (pre @ post) - 1)) \<or>
          (\<exists>zs. Realocate T al (vec (pre @ post) 0) (length pre) (Some x) = Throws ElemExn (vec zs 0))"
      unfolding xs by blast
    with ok E have "v' = vec (pre @ x # post) (?N - length (pre @ post) - 1)"
      by (auto simp: v 0 xs lp mk)
    moreover have "?N = max 1 (2 * ?n)"
      by (cases xs) (simp_all flip: xs)
    moreover have "max 1 (2 * ?n) \<le> SIZE_MAX"
      using dbl by (simp add: max_def SIZE_MAX_def)
    ultimately show ?thesis
      using mk pos by (simp add: v 0 pre_def post_def)
  next
    case (Suc k')
    from ok obtain x where mk: "mk = Some x"
      using pos by (cases mk) (auto simp: Emplace_None_in_place v Suc)
    have fit': "length xs + Suc k' \<le> SIZE_MAX"
      using fit Suc by simp
    have "v' = vec (pre @ x # post) k'"
    proof (cases post rule: rev_cases)
      case Nil
      with xs lp have "pos = length xs" "pre = xs"
        by simp_all
      with ok Emplace_end_vec [OF fit', of T al x] show ?thesis
        by (simp add: v Suc mk Nil)
    next
      case (snoc mid bk)
      have fit'': "length (pre @ mid @ [bk]) + Suc k' \<le> SIZE_MAX"
        using fit' by (simp add: xs snoc)
      from Emplace_shift_vec [OF fit'', of T al x] ok
      show ?thesis
        by (auto simp: v Suc mk xs snoc lp)
    qed
    then show ?thesis
      using mk pos fit by (simp add: v Suc pre_def post_def)
  qed
qed


section \<open>Erasure and growth\<close>

lemma vector_inv_size_le: "vector_inv v \<Longrightarrow> size' v \<le> capacity' (data' v) \<and> capacity' (data' v) \<le> SIZE_MAX"
  by (simp add: vector_inv_def)

lemma Erase_Ok:
  assumes inv: "vector_inv v" and pos: "pos < size' v" and ok: "Erase T v pos = Ok v'"
  shows "v' = vec (take pos (elements v) @ drop (Suc pos) (elements v))
                 (Suc (capacity' (data' v) - size' v))"
proof -
  from inv obtain xs k where v: "v = vec xs k" and fit: "length xs + k \<le> SIZE_MAX"
    by (rule vector_inv_vecE)
  from pos have xs: "xs = take pos xs @ xs ! pos # drop (Suc pos) xs" and lp: "length (take pos xs) = pos"
    by (simp_all add: v id_take_nth_drop)
  from Erase_vec [of T "take pos xs" "xs ! pos" "drop (Suc pos) xs" k] ok
  have "v' = vec (take pos xs @ drop (Suc pos) xs) (Suc k)"
    unfolding lp xs [symmetric] v by auto
  then show ?thesis
    by (simp add: v)
qed

lemma Erase_returns:
  assumes inv: "vector_inv v" and pos: "pos < size' v"
    and nt: "\<forall>cur x. \<not> move_assign_throws T cur x"
  shows "\<exists>v'. Erase T v pos = Ok v'"
proof -
  from inv obtain xs k where v: "v = vec xs k" and fit: "length xs + k \<le> SIZE_MAX"
    by (rule vector_inv_vecE)
  from pos have xs: "xs = take pos xs @ xs ! pos # drop (Suc pos) xs" and lp: "length (take pos xs) = pos"
    by (simp_all add: v id_take_nth_drop)
  from Erase_vec [of T "take pos xs" "xs ! pos" "drop (Suc pos) xs" k] nt
  show ?thesis
    unfolding lp xs [symmetric] v by auto
qed

lemma Emplace_full_vec:
  assumes "nothrow T" and "2 * length (pre @ post) \<le> SIZE_MAX"
    and "al (if length (pre @ post) = 0 then 1 else 2 * length (pre @ post))"
  shows "Emplace T al (vec (pre @ post) 0) (length pre) (Some x) =
           Ok (vec (pre @ x # post)
                 ((if length (pre @ post) = 0 then 1 else 2 * length (pre @ post))
                    - length (pre @ post) - 1))"
proof -
  have "Emplace T al (vec (pre @ post) 0) (length pre) (Some x)
          = Realocate T al (vec (pre @ post) 0) (length pre) (Some x)"
    by (simp add: Emplace_def)
  with Realocate_vec [of pre post al T x, OF assms(2,3)] nothrowD [OF assms(1)]
  show ?thesis by metis
qed

lemma nothrow_T_value: "nothrow T_value"
  by (simp add: nothrow_def T_value_def)

lemma small_fits: "n \<le> 1000 \<Longrightarrow> n \<le> SIZE_MAX"
  by (simp add: SIZE_MAX_def)



section \<open>Insertion with spare capacity, and erasure\<close>

lemma vector_inv_length_elements: "vector_inv v \<Longrightarrow> length (elements v) = size' v"
  by (auto elim: vector_inv_vecE)

lemma Emplace_shift_nothrow_vec:
  assumes "nothrow T" and "length (pre @ mid @ [bk]) + Suc k \<le> SIZE_MAX"
  shows "Emplace T al (vec (pre @ mid @ [bk]) (Suc k)) (length pre) (Some x)
           = Ok (vec (pre @ x # mid @ [bk]) k)"
  using Emplace_shift_vec [OF assms(2), of T al x] nothrowD [OF assms(1)] by blast

lemma Erase_nothrow_vec:
  assumes "\<forall>cur x. \<not> move_assign_throws T cur x"
  shows "Erase T (vec (pre @ c # ys) k) (length pre) = Ok (vec (pre @ ys) (Suc k))"
  using Erase_vec [of T pre c ys k] assms by blast





text \<open>
  Claim C7. \<open>Erase\<close> at a position of \<open>[begin, end)\<close> of a vector move-assigns the objects
  after the position one slot to the left and calls \<open>PopBack\<close> on the result. A call that
  returns leaves the original sequence without the element at the position, the size one
  less, the capacity as it was, and the invariant; and the call returns when the move
  assignment of the element type does not throw.
\<close>

theorem Erase_removes_element:
  fixes v :: "'a vector"
  assumes "vector_inv v" and "pos < Size v"
  shows "Erase T v pos =
           (case move_n T (slots v) (pos + 1) (Size v - (pos + 1)) pos of
              Undefined \<Rightarrow> Undefined
            | Throws e b \<Rightarrow> Throws e (with_slots v b)
            | Ok b \<Rightarrow> PopBack (with_slots v b)) \<and>
         (\<forall>v'. Erase T v pos = Ok v' \<longrightarrow>
            elements v' = take pos (elements v) @ drop (Suc pos) (elements v) \<and>
            Size v' + 1 = Size v \<and> Capacity v' = Capacity v \<and> vector_inv v') \<and>
         ((\<forall>cur x. \<not> move_assign_throws T cur x) \<longrightarrow> (\<exists>v'. Erase T v pos = Ok v'))"
proof -
  have 1: "Erase T v pos =
           (case move_n T (slots v) (pos + 1) (Size v - (pos + 1)) pos of
              Undefined \<Rightarrow> Undefined
            | Throws e b \<Rightarrow> Throws e (with_slots v b)
            | Ok b \<Rightarrow> PopBack (with_slots v b))"
    using assms(2) by (simp add: Erase_def Size_def)
  have 2: "elements v' = take pos (elements v) @ drop (Suc pos) (elements v) \<and>
            Size v' + 1 = Size v \<and> Capacity v' = Capacity v \<and> vector_inv v'"
    if ok: "Erase T v pos = Ok v'" for v'
  proof -
    from assms(1) obtain xs k where v: "v = vec xs k" and fit: "length xs + k \<le> SIZE_MAX"
      by (rule vector_inv_vecE)
    from Erase_Ok [OF assms(1) _ ok] assms(2)
    have "v' = vec (take pos xs @ drop (Suc pos) xs) (Suc k)"
      by (simp add: v Size_def)
    moreover have "xs \<noteq> []"
      using assms(2) by (auto simp: v)
    ultimately show ?thesis
      using assms(2) fit by (cases xs) (simp_all add: v)
  qed
  have 3: "\<exists>v'. Erase T v pos = Ok v'" if "\<forall>cur x. \<not> move_assign_throws T cur x"
    using assms that by (intro Erase_returns) (simp_all add: Size_def)
  from 1 2 3 show ?thesis
    by blast
qed

text \<open>Erasing the middle element of \<open>[1, 2, 3]\<close>.\<close>

theorem Erase_removes_element_witness:
  "vector_inv (vec [1, 2, 3 :: nat] 0) \<and>
   Erase T_value (vec [1, 2, 3] 0) 1 = Ok (vec [1, 3] 1) \<and>
   elements (vec [1, 3 :: nat] 1) = [1, 3] \<and> Size (vec [1, 3 :: nat] 1) + 1 = 3"
proof -
  have "Erase T_value (vec ([1] @ 2 # [3]) 0) (length [1 :: nat]) = Ok (vec ([1] @ [3]) (Suc 0))"
    by (rule Erase_nothrow_vec) (simp add: T_value_def)
  then have e: "Erase T_value (vec [1, 2, 3] 0) 1 = Ok (vec [1, 3] 1)"
    by simp
  from e Erase_removes_element [of "vec [1, 2, 3 :: nat] 0" 1 T_value]
  show ?thesis
    by (simp add: small_fits)
qed

section \<open>A throwing construction at capacity\<close>

lemma at_vec: "i < length xs \<Longrightarrow> at (vec xs k) i = Some (xs ! i)"
  by (simp add: at_def load_def nth_append)

text \<open>
  Claim C2. On a vector whose size equals its capacity, when the construction of the new
  element throws, \<open>Emplace\<close> at any position of \<open>[begin, end]\<close> does not return normally and
  every exception leaves the vector as it was: same size, same capacity, same slots. When the
  doubled size fits \<open>size_t\<close>, the exception is that of the constructor, or \<open>std::bad_alloc\<close>
  when the new block could not be had, in which case the constructor never ran. \<open>Insert\<close> and
  \<open>PushBack\<close> of a value whose copy throws are this call of \<open>Emplace\<close>. When the construction
  succeeds and the call returns, the new element is the one at index \<open>P\<close>.
\<close>

theorem Emplace_at_capacity_ctor_throws:
  fixes v :: "'a vector"
  assumes "vector_inv v" and "Size v = Capacity v" and "pos \<le> Size v"
  shows "(\<forall>e v'. Emplace T al v pos None = Throws e v' \<longrightarrow> v' = v) \<and>
         (\<forall>v'. Emplace T al v pos None \<noteq> Ok v') \<and>
         (2 * Size v \<le> SIZE_MAX \<longrightarrow>
            Emplace T al v pos None =
              Throws (if al (max 1 (2 * Size v)) then ElemExn else BadAlloc) v) \<and>
         (copy_ctor_throws T x \<longrightarrow>
            Insert_copy T al v pos x = Emplace T al v pos None \<and>
            PushBack_copy T al v x = Emplace T al v (Size v) None) \<and>
         (\<forall>v'. Emplace T' al' v pos (Some y) = Ok v' \<longrightarrow> at v' pos = Some y)"
proof -
  let ?N = "if size' v = 0 then 1 else size_t (size' v * 2)"
  have E: "Emplace T al v pos None =
     (case (RawMemory_sized al ?N :: 'a raw_memory option) of
        None \<Rightarrow> Throws BadAlloc v
      | Some new_data \<Rightarrow> if pos < capacity' new_data then Throws ElemExn v else Undefined)"
    using assms(2,3) by (simp add: Emplace_def Realocate_None Size_def Capacity_def)
  have 1: "\<forall>e v'. Emplace T al v pos None = Throws e v' \<longrightarrow> v' = v"
    unfolding E by (auto split: option.splits if_splits)
  have 2: "\<forall>v'. Emplace T al v pos None \<noteq> Ok v'"
    unfolding E by (auto split: option.splits if_splits)
  have 3: "Emplace T al v pos None = Throws (if al (max 1 (2 * Size v)) then ElemExn else BadAlloc) v"
    if fit: "2 * Size v \<le> SIZE_MAX"
  proof -
    have "size_t (size' v * 2) = 2 * size' v"
      using fit by (simp add: size_t_id Size_def mult.commute)
    then have N: "?N = max 1 (2 * Size v)" "?N \<noteq> 0" "pos < ?N"
      using assms(3) by (auto simp: Size_def)
    show ?thesis
      unfolding E using N(2,3) by (simp add: RawMemory_sized_eq N(1))
  qed
  have 4: "Insert_copy T al v pos x = Emplace T al v pos None \<and>
           PushBack_copy T al v x = Emplace T al v (Size v) None" if "copy_ctor_throws T x"
    using that by (simp add: Insert_copy_def PushBack_copy_def EmplaceBack_def copy_construct_def
        Size_def)
  have 5: "at v' pos = Some y" if ok: "Emplace T' al' v pos (Some y) = Ok v'" for v'
  proof -
    from Emplace_Ok [OF assms(1) _ ok] assms(3)
    have v': "v' = vec (take pos (elements v) @ y # drop pos (elements v))
                     (max 1 (2 * size' v) - size' v - 1)"
      using assms(2) by (simp add: Size_def Capacity_def)
    have "length (take pos (elements v)) = pos"
      using assms(1,3) by (simp add: vector_inv_length_elements Size_def)
    then show ?thesis
      unfolding v' by (simp add: at_vec nth_append)
  qed
  from 1 2 3 4 5 show ?thesis by blast
qed

text \<open>A throwing construction at index 1 of the full vector \<open>[1, 2]\<close>.\<close>

theorem Emplace_at_capacity_ctor_throws_witness:
  "vector_inv (vec [1, 2 :: nat] 0) \<and> Size (vec [1, 2 :: nat] 0) = Capacity (vec [1, 2 :: nat] 0) \<and>
   Emplace T_fragile always (vec [1, 2] 0) 1 None = Throws ElemExn (vec [1, 2] 0) \<and>
   copy_ctor_throws T_fragile 6 \<and>
   Insert_copy T_fragile always (vec [1, 2] 0) 1 6 = Throws ElemExn (vec [1, 2] 0) \<and>
   PushBack_copy T_fragile always (vec [1, 2] 0) 6 = Emplace T_fragile always (vec [1, 2] 0) 2 None \<and>
   Emplace T_value always (vec [1, 2] 0) 1 (Some 9) = Ok (vec [1, 9, 2] 1) \<and>
   at (vec [1, 9, 2 :: nat] 1) 1 = Some 9"
proof -
  have e: "Emplace T_value always (vec [1, 2] 0) 1 (Some 9) = Ok (vec ([1] @ 9 # [2]) 1)"
    using Emplace_full_vec [of T_value "[1]" "[2]" always 9]
    by (simp add: always_def small_fits nothrow_T_value)
  have f: "copy_ctor_throws T_fragile 6"
    by (simp add: T_fragile_def)
  have s: "Size (vec [1, 2 :: nat] 0) = 2"
    by simp
  from e f Emplace_at_capacity_ctor_throws [of "vec [1, 2 :: nat] 0" 1 T_fragile always 6
      T_value always 9]
  show ?thesis
    unfolding s by (simp add: small_fits always_def)
qed

section \<open>Insertion undone by erasure, and Reserve\<close>



lemma RawMemory_sized_pos:
  "0 < n \<Longrightarrow> RawMemory_sized al n =
     (if al n then Some \<lparr>buffer' = replicate n Raw, capacity' = n\<rparr> else None)"
  by (simp add: RawMemory_sized_def Allocate_def)

lemma destroy_n_all: "destroy_n (map Live ys @ B) 0 (length ys) = Some (replicate (length ys) Raw @ B)"
  using destroy_n_Live [of "[]" 0 ys B] by simp

lemma Reserve_vec:
  fixes xs :: "'a list"
  assumes big: "length xs + k < n"
  shows "Reserve T al (vec xs k) n =
           (if al n then Ok (vec xs (n - length xs)) else Throws BadAlloc (vec xs k)) \<or>
         (al n \<and>
          ((nothrow_move_constructible T \<or> \<not> copy_constructible T) \<and>
             \<not> nothrow_move_constructible T \<and> (\<exists>a. move_ctor_throws T a) \<or>
           \<not> (nothrow_move_constructible T \<or> \<not> copy_constructible T) \<and>
             (\<exists>a. copy_ctor_throws T a)) \<and>
          (\<exists>zs. length zs = length xs \<and>
             ((nothrow_move_constructible T \<or> \<not> copy_constructible T) \<or> zs = xs) \<and>
             Reserve T al (vec xs k) n = Throws ElemExn (vec zs k)))"
proof (cases "al n")
  case False
  then show ?thesis
    using big by (simp add: Reserve_def RawMemory_sized_pos)
next
  case True
  let ?v = "vec xs k"
  let ?call = "Reserve T al ?v n"
  let ?r = "n - length xs"
  let ?mv = "nothrow_move_constructible T \<or> \<not> copy_constructible T"
  let ?nb = "replicate (length xs) Raw @ replicate ?r (Raw :: 'a slot)"
  have nb: "replicate n (Raw :: 'a slot) = ?nb"
    using big by (simp flip: replicate_add)
  define fin :: "'a slot list \<Rightarrow> 'a slot list \<Rightarrow> ('a vector, 'a vector) outcome"
    where "fin = (\<lambda>old b.
      (case destroy_n old 0 (size' ?v) of
         None \<Rightarrow> Undefined
       | Some old' \<Rightarrow>
           (case RawMemory_Swap (data' ?v, \<lparr>buffer' = replicate n Raw, capacity' = n\<rparr>\<lparr>buffer' := b\<rparr>) of
              (d, released) \<Rightarrow> Ok (?v\<lparr>data' := d\<rparr>))))"
  have E: "?call =
     (case
        (if ?mv then uninitialized_move_n T (slots ?v) 0 (size' ?v) (replicate n Raw) 0
         else
           (case uninitialized_copy_n T (slots ?v) 0 (size' ?v) (replicate n Raw) 0 of
              Ok b \<Rightarrow> Ok (slots ?v, b)
            | Throws e b \<Rightarrow> Throws e (slots ?v, b)
            | Undefined \<Rightarrow> Undefined))
      of
        Undefined \<Rightarrow> Undefined
      | Throws e (old, b) \<Rightarrow> Throws e (with_slots ?v old)
      | Ok (old, b) \<Rightarrow> fin old b)"
    using big True unfolding Reserve_def fin_def
    by (simp add: RawMemory_sized_pos del: vec_simps(1,2))
  have fin: "fin (map Live ys @ replicate k Raw) (map Live xs @ replicate ?r Raw) = Ok (vec xs ?r)"
    if "length ys = length xs" for ys
  proof -
    have "destroy_n (map Live ys @ replicate k Raw) 0 (size' ?v)
            = Some (replicate (length ys) Raw @ replicate k Raw)"
      using destroy_n_all [of ys "replicate k Raw"] that by simp
    moreover have "?v\<lparr>data' := \<lparr>buffer' = map Live xs @ replicate ?r Raw, capacity' = n\<rparr>\<rparr>
                     = vec xs ?r"
      using big by (simp add: vec_def)
    ultimately show ?thesis
      by (simp add: fin_def RawMemory_Swap_def)
  qed
  have ws: "with_slots ?v (map Live zs @ replicate k Raw) = vec zs k" if "length zs = length xs" for zs
    using that by (intro with_slots_vec_same) simp_all
  show ?thesis
  proof (cases ?mv)
    case mv: True
    let ?m = "uninitialized_move_n T ([] @ map Live xs @ replicate k Raw) 0 (length xs)
                ([] @ replicate (length xs) Raw @ replicate ?r Raw) 0"
    have m: "?m = Ok ([] @ map Live (map (moved_from T) xs) @ replicate k Raw,
                      [] @ map Live xs @ replicate ?r Raw) \<or>
      (\<not> nothrow_move_constructible T \<and> (\<exists>a\<in>set xs. move_ctor_throws T a) \<and>
       (\<exists>ys. length ys = length xs \<and>
          ?m = Throws ElemExn ([] @ map Live ys @ replicate k Raw,
                 [] @ replicate (length xs) Raw @ replicate ?r Raw)))"
      by (rule uninitialized_move_n_Raw) simp_all
    have m': "uninitialized_move_n T (slots ?v) 0 (size' ?v) (replicate n Raw) 0 = ?m"
      unfolding nb by simp
    from m show ?thesis
    proof
      assume ok: "?m = Ok ([] @ map Live (map (moved_from T) xs) @ replicate k Raw,
                      [] @ map Live xs @ replicate ?r Raw)"
      have "?call = fin (map Live (map (moved_from T) xs) @ replicate k Raw)
                        (map Live xs @ replicate ?r Raw)"
        unfolding E m' using mv ok by simp
      also have "\<dots> = Ok (vec xs ?r)"
        by (rule fin) simp
      finally show ?thesis
        using True by simp
    next
      assume a: "\<not> nothrow_move_constructible T \<and> (\<exists>a\<in>set xs. move_ctor_throws T a) \<and>
       (\<exists>ys. length ys = length xs \<and>
          ?m = Throws ElemExn ([] @ map Live ys @ replicate k Raw,
                 [] @ replicate (length xs) Raw @ replicate ?r Raw))"
      then obtain ys where ys: "length ys = length xs"
        "?m = Throws ElemExn ([] @ map Live ys @ replicate k Raw,
                 [] @ replicate (length xs) Raw @ replicate ?r Raw)"
        by blast
      have "?call = Throws ElemExn (with_slots ?v (map Live ys @ replicate k Raw))"
        unfolding E m' using mv ys(2) by simp
      then have "?call = Throws ElemExn (vec ys k)"
        using ws [OF ys(1)] by simp
      with a ys(1) mv True show ?thesis by blast
    qed
  next
    case cp: False
    let ?c = "uninitialized_copy_n T ([] @ map Live xs @ replicate k Raw) 0 (length xs)
                ([] @ replicate (length xs) Raw @ replicate ?r Raw) 0"
    have c: "?c = (if \<exists>a\<in>set xs. copy_ctor_throws T a
        then Throws ElemExn ([] @ replicate (length xs) Raw @ replicate ?r Raw)
        else Ok ([] @ map Live xs @ replicate ?r Raw))"
      by (rule uninitialized_copy_n_Raw) simp_all
    have c': "uninitialized_copy_n T (slots ?v) 0 (size' ?v) (replicate n Raw) 0 = ?c"
      unfolding nb by simp
    show ?thesis
    proof (cases "\<exists>a\<in>set xs. copy_ctor_throws T a")
      case thr: True
      have "?call = Throws ElemExn (with_slots ?v (map Live xs @ replicate k Raw))"
        unfolding E c' using cp c thr by simp
      then have "?call = Throws ElemExn (vec xs k)"
        using ws [of xs] by simp
      with cp thr True show ?thesis by blast
    next
      case nothr: False
      have "?call = fin (map Live xs @ replicate k Raw) (map Live xs @ replicate ?r Raw)"
        unfolding E c' using cp c nothr by simp
      also have "\<dots> = Ok (vec xs ?r)"
        by (rule fin) simp
      finally show ?thesis
        using True by simp
    qed
  qed
qed

section \<open>Reserve and copy assignment\<close>



lemma Vector_copy_vec:
  "Vector_copy T al (vec ys j) =
     (if ys \<noteq> [] \<and> \<not> al (length ys) then Throws BadAlloc ()
      else if \<exists>y\<in>set ys. copy_ctor_throws T y then Throws ElemExn ()
      else Ok (vec ys 0))"
proof (cases "ys = []")
  case True
  then show ?thesis
    by (simp add: Vector_copy_def RawMemory_sized_def Allocate_def vec_def)
next
  case False
  then have pos: "0 < length ys"
    by simp
  let ?c = "uninitialized_copy_n T ([] @ map Live ys @ replicate j Raw) 0 (length ys)
              ([] @ replicate (length ys) Raw @ []) 0"
  have c: "?c = (if \<exists>a\<in>set ys. copy_ctor_throws T a
        then Throws ElemExn ([] @ replicate (length ys) Raw @ [])
        else Ok ([] @ map Live ys @ []))"
    by (rule uninitialized_copy_n_Raw) simp_all
  have c': "uninitialized_copy_n T (slots (vec ys j)) 0 (size' (vec ys j))
              (replicate (length ys) Raw) 0 =
            (if \<exists>a\<in>set ys. copy_ctor_throws T a
             then Throws ElemExn (replicate (length ys) Raw) else Ok (map Live ys))"
    using c by simp
  show ?thesis
  proof (cases "al (length ys)")
    case no: False
    then show ?thesis
      using False by (simp add: Vector_copy_def RawMemory_sized_pos [OF pos])
  next
    case yes: True
    have "Vector_copy T al (vec ys j) =
      (case uninitialized_copy_n T (slots (vec ys j)) 0 (size' (vec ys j))
              (replicate (length ys) Raw) 0 of
         Ok b \<Rightarrow> Ok \<lparr>data' = \<lparr>buffer' = b, capacity' = length ys\<rparr>, size' = length ys\<rparr>
       | Throws e b \<Rightarrow> Throws e ()
       | Undefined \<Rightarrow> Undefined)"
      using yes by (simp add: Vector_copy_def RawMemory_sized_pos [OF pos] del: vec_simps(1)
          cong: outcome.case_cong)
    then show ?thesis
      unfolding c' using yes by (simp add: vec_def)
  qed
qed

lemma Vector_dtor_vec: "Vector_dtor (vec xs k) = Ok ()"
  using destroy_n_all [of xs "replicate k Raw"] by (simp add: Vector_dtor_def)

lemma AllocateOnCapacity_vec:
  fixes xs ys :: "'a list"
  assumes fits: "length ys \<le> length xs + k"
  shows "AllocateOnCapacity T (vec xs k) (vec ys j) = Ok (vec ys (length xs + k - length ys)) \<or>
         (((\<exists>a b. copy_assign_throws T a b) \<or> (\<exists>a. copy_ctor_throws T a)) \<and>
          (\<exists>zs. length zs = length xs \<and>
             AllocateOnCapacity T (vec xs k) (vec ys j) = Throws ElemExn (vec zs k)))"
proof -
  let ?v = "vec xs k" and ?r = "vec ys j"
  let ?call = "AllocateOnCapacity T ?v ?r"
  let ?m = "min (length xs) (length ys)"
  let ?B = "map Live (drop ?m ys) @ replicate j Raw"
  let ?D = "map Live (drop ?m xs) @ replicate k Raw"
  let ?cp = "copy_n T ([] @ map Live (take ?m ys) @ ?B) 0 (length (take ?m ys))
               ([] @ map Live (take ?m xs) @ ?D) 0"
  have sr: "slots ?r = [] @ map Live (take ?m ys) @ ?B"
    by (simp flip: map_append)
  have sv: "slots ?v = [] @ map Live (take ?m xs) @ ?D"
    by (simp flip: map_append)
  have lm: "length (take ?m ys) = ?m"
    by simp
  have cp: "?cp = Ok ([] @ map Live (take ?m ys) @ ?D) \<or>
    ((\<exists>a b. copy_assign_throws T a b) \<and>
     (\<exists>zs. length zs = length (take ?m ys) \<and> ?cp = Throws ElemExn ([] @ map Live zs @ ?D)))"
    by (rule copy_n_Live) simp_all
  have E: "?call =
     (case ?cp of
        Undefined \<Rightarrow> Undefined
      | Throws e b \<Rightarrow> Throws e (with_slots ?v b)
      | Ok b \<Rightarrow>
          (if length xs > length ys then
             (case destroy_n b (length ys) (length xs - length ys) of
                None \<Rightarrow> Undefined
              | Some b' \<Rightarrow> Ok ((with_slots ?v b')\<lparr>size' := length ys\<rparr>))
           else
             (case uninitialized_copy_n T (slots ?r) (length xs) (length ys - length xs) b (length xs) of
                Undefined \<Rightarrow> Undefined
              | Throws e b' \<Rightarrow> Throws e (with_slots ?v b')
              | Ok b' \<Rightarrow> Ok ((with_slots ?v b')\<lparr>size' := length ys\<rparr>))))"
    unfolding AllocateOnCapacity_def sr sv lm
    by (simp del: vec_simps(1) cong: outcome.case_cong option.case_cong if_cong)
  from cp show ?thesis
  proof
    assume a: "(\<exists>a b. copy_assign_throws T a b) \<and>
     (\<exists>zs. length zs = length (take ?m ys) \<and> ?cp = Throws ElemExn ([] @ map Live zs @ ?D))"
    then obtain zs where zs: "length zs = ?m" "?cp = Throws ElemExn ([] @ map Live zs @ ?D)"
      by auto
    have "with_slots ?v (map Live (zs @ drop ?m xs) @ replicate k Raw) = vec (zs @ drop ?m xs) k"
      using zs(1) by (intro with_slots_vec_same) auto
    then have "?call = Throws ElemExn (vec (zs @ drop ?m xs) k)"
      unfolding E zs(2) by simp
    moreover have "length (zs @ drop ?m xs) = length xs"
      using zs(1) by auto
    ultimately show ?thesis using a by blast
  next
    assume ok: "?cp = Ok ([] @ map Live (take ?m ys) @ ?D)"
    show ?thesis
    proof (cases "length xs > length ys")
      case True
      then have m: "?m = length ys"
        by simp
      have "destroy_n (map Live ys @ map Live (drop (length ys) xs) @ replicate k Raw) (length ys)
              (length (drop (length ys) xs))
              = Some (map Live ys @ replicate (length (drop (length ys) xs)) Raw @ replicate k Raw)"
        by (rule destroy_n_Live) simp
      then have d: "destroy_n (map Live ys @ map Live (drop (length ys) xs) @ replicate k Raw)
              (length ys) (length xs - length ys)
              = Some (map Live ys @ replicate (length xs - length ys + k) Raw)"
        by (simp add: replicate_add)
      have "(with_slots ?v (map Live ys @ replicate (length xs - length ys + k) Raw))
              \<lparr>size' := length ys\<rparr> = vec ys (length xs - length ys + k)"
        using True by (intro with_slots_vec) simp_all
      then have "?call = Ok (vec ys (length xs - length ys + k))"
        unfolding E ok using True d by (simp add: m)
      then show ?thesis
        using True by simp
    next
      case False
      then have m: "?m = length xs"
        by simp
      let ?e = "length ys - length xs"
      let ?rest = "replicate (k - ?e) (Raw :: 'a slot)"
      let ?uc = "uninitialized_copy_n T (map Live (take (length xs) ys) @ map Live (drop (length xs) ys)
                    @ replicate j Raw) (length xs) (length (drop (length xs) ys))
                  (map Live (take (length xs) ys) @ replicate (length (drop (length xs) ys)) Raw @ ?rest)
                  (length xs)"
      have uc: "?uc = (if \<exists>a\<in>set (drop (length xs) ys). copy_ctor_throws T a
          then Throws ElemExn (map Live (take (length xs) ys)
                 @ replicate (length (drop (length xs) ys)) Raw @ ?rest)
          else Ok (map Live (take (length xs) ys) @ map Live (drop (length xs) ys) @ ?rest))"
        using False by (intro uninitialized_copy_n_Raw) simp_all
      have rk: "replicate k (Raw :: 'a slot) = replicate ?e Raw @ ?rest"
        using fits False by (simp flip: replicate_add)
      have ys: "map Live (take (length xs) ys) @ map Live (drop (length xs) ys) = map Live ys"
        by (simp flip: map_append)
      have ys': "map Live (take (length xs) ys) @ map Live (drop (length xs) ys) @ R
                   = map Live ys @ R" for R
        using ys by (metis append_assoc)
      have E': "?call =
        (case ?uc of
           Undefined \<Rightarrow> Undefined
         | Throws e b' \<Rightarrow> Throws e (with_slots ?v b')
         | Ok b' \<Rightarrow> Ok ((with_slots ?v b')\<lparr>size' := length ys\<rparr>))"
        unfolding E ok using False rk by (simp add: m ys')
      show ?thesis
      proof (cases "\<exists>a\<in>set (drop (length xs) ys). copy_ctor_throws T a")
        case thr: True
        have "with_slots ?v (map Live (take (length xs) ys) @ replicate k Raw)
                = vec (take (length xs) ys) k"
          using False by (intro with_slots_vec_same) simp_all
        then have "?call = Throws ElemExn (vec (take (length xs) ys) k)"
          unfolding E' uc using thr rk by simp
        moreover have "length (take (length xs) ys) = length xs"
          using False by simp
        ultimately show ?thesis using thr by blast
      next
        case nothr: False
        have "(with_slots ?v (map Live ys @ ?rest))\<lparr>size' := length ys\<rparr> = vec ys (k - ?e)"
          using False fits by (intro with_slots_vec) simp_all
        then have "?call = Ok (vec ys (k - ?e))"
          unfolding E' uc using nothr by (simp add: ys')
        moreover have "k - ?e = length xs + k - length ys"
          using False by simp
        ultimately show ?thesis by simp
      qed
    qed
  qed
qed

section \<open>Copy assignment\<close>

lemma assign_copy_big:
  fixes st :: "'a store"
  assumes "st this = Some (vec xs k)" and "st rhs = Some (vec ys j)" and "this \<noteq> rhs"
    and "length xs + k < length ys"
  shows "assign_copy T al st this rhs =
     (if \<not> al (length ys) then Throws BadAlloc st
      else if \<exists>y\<in>set ys. copy_ctor_throws T y then Throws ElemExn st
      else Ok (st(this \<mapsto> vec ys 0)))"
proof -
  have ne: "ys \<noteq> []"
    using assms(4) by auto
  show ?thesis
    using assms ne
    by (simp add: assign_copy_def Vector_copy_vec Swap_eq Vector_dtor_vec)
qed

lemma assign_copy_small:
  fixes st :: "'a store"
  assumes "st this = Some v" and "st rhs = Some r" and "this \<noteq> rhs"
    and "size' r \<le> capacity' (data' v)"
  shows "assign_copy T al st this rhs =
     (case AllocateOnCapacity T v r of
        Undefined \<Rightarrow> Undefined
      | Throws e v' \<Rightarrow> Throws e (st(this \<mapsto> v'))
      | Ok v' \<Rightarrow> Ok (st(this \<mapsto> v')))"
  using assms by (simp add: assign_copy_def)



section \<open>The invariant and the exceptions of the insertion without reallocation\<close>

lemma one_live_too_many:
  assumes "length zs = Suc (length xs)"
  shows "\<not> vector_inv (with_slots (vec xs (Suc k)) (map Live zs @ replicate k Raw))"
proof -
  from assms obtain ys z where zs: "zs = ys @ [z]" and ys: "length ys = length xs"
    by (cases zs rule: rev_cases) auto
  have "drop (length xs) (map Live zs @ replicate k Raw) = Live z # replicate k Raw"
    using ys by (simp add: zs)
  then show ?thesis
    by (simp add: vector_inv_def with_slots_def slots_def vec_def)
qed

text \<open>
  Claim C8 fails on the code. The vector \<open>[1, 2]\<close> in a block of three slots satisfies the
  invariant. With an element type whose move assignment throws, \<open>Emplace\<close> of 7 at index 0
  builds the temporary, move-constructs the last element 2 into slot 2, and the first move
  assignment of \<open>std::move_backward\<close> throws: the exception leaves \<open>size_\<close> 2 and live objects
  in the slots 0, 1 and 2, a state that does not satisfy the invariant.
\<close>

theorem Emplace_shift_exception_breaks_invariant:
  "vector_inv (vec [1, 2 :: nat] 1) \<and>
   Emplace T_shaky always (vec [1, 2] 1) 0 (Some 7) =
     Throws ElemExn \<lparr>data' = \<lparr>buffer' = [Live 1, Live 0, Live 2], capacity' = 3\<rparr>, size' = 2\<rparr> \<and>
   \<not> vector_inv \<lparr>data' = \<lparr>buffer' = [Live 1, Live 0, Live 2 :: nat slot], capacity' = 3\<rparr>, size' = 2\<rparr>"
proof -
  have 1: "vector_inv (vec [1, 2 :: nat] 1)"
    by (simp add: small_fits)
  have 2: "Emplace T_shaky always (vec [1, 2] 1) 0 (Some 7) =
     Throws ElemExn \<lparr>data' = \<lparr>buffer' = [Live 1, Live 0, Live 2], capacity' = 3\<rparr>, size' = 2\<rparr>"
    by (simp add: Emplace_def vec_def slots_def with_slots_def load_def construct_at_def
        move_construct_def move_assign_def T_shaky_def)
  have 3: "\<not> vector_inv \<lparr>data' = \<lparr>buffer' = [Live 1, Live 0, Live 2 :: nat slot], capacity' = 3\<rparr>, size' = 2\<rparr>"
    by (simp add: vector_inv_def slots_def)
  from 1 2 3 show ?thesis
    by blast
qed

section \<open>The invariant after every operation\<close>

lemma vec_eq_iff: "vec xs k = vec ys j \<longleftrightarrow> xs = ys \<and> k = j"
proof
  assume eq: "vec xs k = vec ys j"
  then have l: "length xs = length ys"
    by (simp add: vec_def)
  from eq have "map Live xs @ replicate k Raw = map Live ys @ replicate j (Raw :: 'a slot)"
    by (simp add: vec_def)
  with l have "map Live xs = map Live ys" and r: "replicate k Raw = replicate j (Raw :: 'a slot)"
    by simp_all
  then have "xs = ys"
    by (simp add: inj_map_eq_map inj_on_def)
  moreover from r have "k = j"
    by (metis length_replicate)
  ultimately show "xs = ys \<and> k = j" ..
qed simp

lemma Vector_default_vec: "Vector_default = vec [] 0"
  by (simp add: Vector_default_def RawMemory_default_def vec_def)

lemma Vector_sized_vec:
  "Vector_sized T al n =
     (if n \<noteq> 0 \<and> \<not> al n then Throws BadAlloc ()
      else
        (case value_init T of
           None \<Rightarrow> if n = 0 then Ok (vec [] 0) else Throws ElemExn ()
         | Some x \<Rightarrow> Ok (vec (replicate n x) 0)))"
proof (cases "n = 0")
  case True
  then show ?thesis
    by (simp add: Vector_sized_def RawMemory_sized_def Allocate_def vec_def split: option.splits)
next
  case False
  then have pos: "0 < n"
    by simp
  have u: "uninitialized_value_construct_n T ([] @ replicate n Raw @ []) 0 n =
     (case value_init T of
        None \<Rightarrow> if n = 0 then Ok ([] @ []) else Throws ElemExn ([] @ replicate n Raw @ [])
      | Some x \<Rightarrow> Ok ([] @ replicate n (Live x) @ []))"
    by (rule uninitialized_value_construct_n_Raw) simp
  show ?thesis
  proof (cases "al n")
    case no: False
    then show ?thesis
      using False by (simp add: Vector_sized_def RawMemory_sized_pos [OF pos])
  next
    case yes: True
    then show ?thesis
      using False u
      by (simp add: Vector_sized_def RawMemory_sized_pos [OF pos] vec_def map_replicate
          split: option.splits)
  qed
qed

lemma PopBack_Ok:
  assumes "vector_inv v" and "size' v \<noteq> 0"
  shows "\<exists>xs x k. v = vec (xs @ [x]) k \<and> PopBack v = Ok (vec xs (Suc k))"
proof -
  from assms(1) obtain ys k where v: "v = vec ys k"
    by (rule vector_inv_vecE)
  with assms(2) obtain xs x where "ys = xs @ [x]"
    by (cases ys rule: rev_cases) auto
  with v PopBack_vec [of xs x k] show ?thesis
    by blast
qed

lemma Resize_vec:
  fixes xs :: "'a list"
  shows "n \<le> length xs \<Longrightarrow>
           Resize T al (vec xs k) n = Ok (vec (take n xs) (length xs - n + k))"
    and "length xs < n \<Longrightarrow> Reserve T al (vec xs k) n = Ok (vec xs j) \<Longrightarrow> n \<le> length xs + j \<Longrightarrow>
           Resize T al (vec xs k) n =
             (case value_init T of
                None \<Rightarrow> Throws ElemExn (vec xs j)
              | Some x \<Rightarrow> Ok (vec (xs @ replicate (n - length xs) x) (length xs + j - n)))"
    and "length xs < n \<Longrightarrow> Reserve T al (vec xs k) n = Throws e w \<Longrightarrow>
           Resize T al (vec xs k) n = Throws e w"
proof -
  show "Resize T al (vec xs k) n = Ok (vec (take n xs) (length xs - n + k))" if le: "n \<le> length xs"
  proof (cases "n = length xs")
    case True
    then show ?thesis
      by (simp add: Resize_def vec_def)
  next
    case False
    with le have lt: "n < length xs"
      by simp
    have "destroy_n (map Live (take n xs) @ map Live (drop n xs) @ replicate k Raw) n
            (length (drop n xs))
          = Some (map Live (take n xs) @ replicate (length (drop n xs)) Raw @ replicate k Raw)"
      using lt by (intro destroy_n_Live) simp
    moreover have "map Live (take n xs) @ map Live (drop n xs) @ replicate k Raw
                     = map Live xs @ replicate k (Raw :: 'a slot)"
      by (metis append_assoc append_take_drop_id map_append)
    ultimately have d: "destroy_n (slots (vec xs k)) n (length xs - n)
          = Some (map Live (take n xs) @ replicate (length xs - n + k) Raw)"
      by (simp add: replicate_add)
    have "(with_slots (vec xs k) (map Live (take n xs) @ replicate (length xs - n + k) Raw))
            \<lparr>size' := length (take n xs)\<rparr> = vec (take n xs) (length xs - n + k)"
      using lt by (intro with_slots_vec) simp_all
    then show ?thesis
      using lt d by (simp add: Resize_def del: vec_simps(1))
  qed
  show "Resize T al (vec xs k) n = Throws e w"
    if "length xs < n" "Reserve T al (vec xs k) n = Throws e w"
    using that by (simp add: Resize_def)
  show "Resize T al (vec xs k) n =
             (case value_init T of
                None \<Rightarrow> Throws ElemExn (vec xs j)
              | Some x \<Rightarrow> Ok (vec (xs @ replicate (n - length xs) x) (length xs + j - n)))"
    if lt: "length xs < n" and r: "Reserve T al (vec xs k) n = Ok (vec xs j)"
      and fit: "n \<le> length xs + j"
  proof -
    let ?e = "n - length xs"
    have rj: "replicate j (Raw :: 'a slot) = replicate ?e Raw @ replicate (j - ?e) Raw"
      using lt fit by (simp flip: replicate_add)
    have u: "uninitialized_value_construct_n T (map Live xs @ replicate ?e Raw @ replicate (j - ?e) Raw)
               (length xs) ?e =
       (case value_init T of
          None \<Rightarrow> if ?e = 0 then Ok (map Live xs @ replicate (j - ?e) Raw)
                  else Throws ElemExn (map Live xs @ replicate ?e Raw @ replicate (j - ?e) Raw)
        | Some x \<Rightarrow> Ok (map Live xs @ replicate ?e (Live x) @ replicate (j - ?e) Raw))"
      by (rule uninitialized_value_construct_n_Raw) simp
    have R: "Resize T al (vec xs k) n =
       (case uninitialized_value_construct_n T (map Live xs @ replicate ?e Raw @ replicate (j - ?e) Raw)
               (length xs) ?e of
          Undefined \<Rightarrow> Undefined
        | Throws e b \<Rightarrow> Throws e (with_slots (vec xs j) b)
        | Ok b \<Rightarrow> Ok ((with_slots (vec xs j) b)\<lparr>size' := n\<rparr>))"
      using lt r rj by (simp add: Resize_def)
    show ?thesis
    proof (cases "value_init T")
      case None
      have "with_slots (vec xs j) (map Live xs @ replicate j Raw) = vec xs j"
        by (rule with_slots_vec_same) simp_all
      then show ?thesis
        unfolding R u using None lt rj by simp
    next
      case (Some x)
      have "(with_slots (vec xs j) (map Live (xs @ replicate ?e x) @ replicate (j - ?e) Raw))
              \<lparr>size' := length (xs @ replicate ?e x)\<rparr> = vec (xs @ replicate ?e x) (j - ?e)"
        using lt fit by (intro with_slots_vec) simp_all
      moreover have "j - ?e = length xs + j - n"
        using lt by simp
      ultimately show ?thesis
        unfolding R u using Some lt by (simp add: map_replicate)
    qed
  qed
qed

text \<open>What \<open>Reserve\<close> leaves, whether it returns or throws.\<close>

lemma Reserve_cases:
  assumes inv: "vector_inv v"
  obtains "Reserve T al v n = Ok v" and "n \<le> capacity' (data' v)"
  | "capacity' (data' v) < n" and "Reserve T al v n = Ok (vec (elements v) (n - size' v))"
  | e zs where "capacity' (data' v) < n" and "length zs = size' v"
      and "Reserve T al v n = Throws e (vec zs (capacity' (data' v) - size' v))"
proof -
  from inv obtain xs k where v: "v = vec xs k"
    by (rule vector_inv_vecE)
  show ?thesis
  proof (cases "n \<le> capacity' (data' v)")
    case True
    then have "Reserve T al v n = Ok v"
      by (simp add: Reserve_def)
    from this True show ?thesis
      by (rule that(1))
  next
    case False
    then have big: "length xs + k < n"
      by (simp add: v)
    from Reserve_vec [OF big, of T al]
    consider "Reserve T al (vec xs k) n = Ok (vec xs (n - length xs))"
      | "Reserve T al (vec xs k) n = Throws BadAlloc (vec xs k)"
      | zs where "length zs = length xs" "Reserve T al (vec xs k) n = Throws ElemExn (vec zs k)"
      by (auto split: if_splits)
    then show ?thesis
    proof cases
      case 1
      with False show ?thesis
        by (intro that(2)) (simp_all add: v)
    next
      case 2
      with False show ?thesis
        by (intro that(3) [of xs BadAlloc]) (simp_all add: v)
    next
      case 3
      with False show ?thesis
        by (intro that(3) [of zs ElemExn]) (simp_all add: v)
    qed
  qed
qed

lemma invariant_after_return:
  fixes v :: "'a vector"
  assumes inv: "vector_inv v"
  shows "n \<le> SIZE_MAX \<Longrightarrow> Reserve T al v n = Ok v' \<Longrightarrow> vector_inv v'"
    and "n \<le> SIZE_MAX \<Longrightarrow> Resize T al v n = Ok v' \<Longrightarrow> vector_inv v' \<and> Size v' = n"
    and "PopBack v = Ok v' \<Longrightarrow> vector_inv v' \<and> Size v' + 1 = Size v"
    and "pos \<le> Size v \<Longrightarrow> Emplace T al v pos mk = Ok v' \<Longrightarrow> vector_inv v'"
    and "EmplaceBack T al v mk = Ok v' \<Longrightarrow> vector_inv v'"
    and "pos < Size v \<Longrightarrow> Erase T v pos = Ok v' \<Longrightarrow> vector_inv v'"
    and "vector_inv r \<Longrightarrow> Size r \<le> Capacity v \<Longrightarrow> AllocateOnCapacity T v r = Ok v' \<Longrightarrow>
           vector_inv v'"
    and "Vector_copy T al v = Ok v' \<Longrightarrow> vector_inv v'"
    and "vector_inv (fst (Vector_move v)) \<and> vector_inv (snd (Vector_move v))"
    and "vector_inv r \<Longrightarrow> vector_inv (fst (Swap (v, r))) \<and> vector_inv (snd (Swap (v, r)))"
proof -
  from inv obtain xs k where v: "v = vec xs k" and fit: "length xs + k \<le> SIZE_MAX"
    by (rule vector_inv_vecE)
  show "vector_inv v'" if n: "n \<le> SIZE_MAX" and ok: "Reserve T al v n = Ok v'"
  proof (rule Reserve_cases [OF inv, of T al n])
    assume "Reserve T al v n = Ok v"
    with ok inv show ?thesis
      by simp
  next
    assume "capacity' (data' v) < n" "Reserve T al v n = Ok (vec (elements v) (n - size' v))"
    with ok n show ?thesis
      by (auto simp: v)
  next
    fix e zs
    assume "Reserve T al v n = Throws e (vec zs (capacity' (data' v) - size' v))"
    with ok show ?thesis
      by simp
  qed
  show "vector_inv v' \<and> Size v' = n" if n: "n \<le> SIZE_MAX" and ok: "Resize T al v n = Ok v'"
  proof (cases "n \<le> length xs")
    case True
    with Resize_vec(1) [OF True, of T al k] ok fit show ?thesis
      by (auto simp: v)
  next
    case False
    then have lt: "length xs < n"
      by simp
    show ?thesis
    proof (rule Reserve_cases [OF inv, of T al n])
      assume r: "Reserve T al v n = Ok v" "n \<le> capacity' (data' v)"
      then have le: "n \<le> length xs + k"
        by (simp add: v)
      from Resize_vec(2) [OF lt r(1) [unfolded v] le] ok fit lt le show ?thesis
        by (auto simp: v split: option.splits)
    next
      assume r: "capacity' (data' v) < n" "Reserve T al v n = Ok (vec (elements v) (n - size' v))"
      have "n \<le> length xs + (n - length xs)"
        by simp
      from Resize_vec(2) [OF lt r(2) [unfolded v, simplified] this] ok n lt show ?thesis
        by (auto simp: v split: option.splits)
    next
      fix e zs
      assume "Reserve T al v n = Throws e (vec zs (capacity' (data' v) - size' v))"
      from Resize_vec(3) [OF lt this [unfolded v]] ok show ?thesis
        by (simp add: v)
    qed
  qed
  show "vector_inv v' \<and> Size v' + 1 = Size v" if ok: "PopBack v = Ok v'"
  proof -
    from ok have "size' v \<noteq> 0"
      by (auto simp: PopBack_def split: if_splits)
    from PopBack_Ok [OF inv this] ok fit show ?thesis
      by (auto simp: v vec_eq_iff)
  qed
  show e: "vector_inv v'" if "pos \<le> Size v" "Emplace T al v pos mk = Ok v'" for pos
    using Emplace_Ok [OF inv _ that(2)] that(1) by (auto simp: Size_def)
  show "vector_inv v'" if "EmplaceBack T al v mk = Ok v'"
    using e [of "Size v"] that by (simp add: EmplaceBack_def Size_def)
  show "vector_inv v'" if "pos < Size v" "Erase T v pos = Ok v'"
    using Erase_Ok [OF inv _ that(2)] that(1) fit by (cases xs) (auto simp: Size_def v)
  show "vector_inv v'"
    if r: "vector_inv r" "Size r \<le> Capacity v" and ok: "AllocateOnCapacity T v r = Ok v'"
  proof -
    from r(1) obtain ys j where rv: "r = vec ys j"
      by (rule vector_inv_vecE)
    have "length ys \<le> length xs + k"
      using r(2) by (simp add: v rv)
    from AllocateOnCapacity_vec [OF this, of T j] ok fit this show ?thesis
      by (auto simp: v rv)
  qed
  show "vector_inv v'" if "Vector_copy T al v = Ok v'"
    using that fit by (auto simp: v Vector_copy_vec split: if_splits)
  show "vector_inv (fst (Vector_move v)) \<and> vector_inv (snd (Vector_move v))"
    using inv by (simp add: Vector_move_eq Vector_default_vec)
  show "vector_inv (fst (Swap (v, r))) \<and> vector_inv (snd (Swap (v, r)))" if "vector_inv r"
    using inv that by (simp add: Swap_eq)
qed

text \<open>
  The invariant also holds after the exceptions of every operation other than the insertion
  without reallocation (for the reallocating insertion when the doubled size fits \<open>size_t\<close>).
\<close>

lemma invariant_after_exception:
  fixes v :: "'a vector"
  assumes inv: "vector_inv v"
  shows "Reserve T al v n = Throws e v' \<Longrightarrow> vector_inv v'"
    and "n \<le> SIZE_MAX \<Longrightarrow> Resize T al v n = Throws e v' \<Longrightarrow> vector_inv v'"
    and "pos < Size v \<Longrightarrow> Erase T v pos = Throws e v' \<Longrightarrow> vector_inv v'"
    and "vector_inv r \<Longrightarrow> Size r \<le> Capacity v \<Longrightarrow> AllocateOnCapacity T v r = Throws e v' \<Longrightarrow>
           vector_inv v'"
    and "Size v = Capacity v \<Longrightarrow> pos \<le> Size v \<Longrightarrow> 2 * Size v \<le> SIZE_MAX \<Longrightarrow>
           Emplace T al v pos mk = Throws e v' \<Longrightarrow> vector_inv v'"
proof -
  from inv obtain xs k where v: "v = vec xs k" and fit: "length xs + k \<le> SIZE_MAX"
    by (rule vector_inv_vecE)
  show "vector_inv v'" if thr: "Reserve T al v n = Throws e v'"
  proof (rule Reserve_cases [OF inv, of T al n])
    assume "Reserve T al v n = Ok v"
    with thr show ?thesis
      by simp
  next
    assume "Reserve T al v n = Ok (vec (elements v) (n - size' v))"
    with thr show ?thesis
      by simp
  next
    fix e' zs
    assume "length zs = size' v"
      "Reserve T al v n = Throws e' (vec zs (capacity' (data' v) - size' v))"
    with thr fit show ?thesis
      by (auto simp: v)
  qed
  show "vector_inv v'" if n: "n \<le> SIZE_MAX" and thr: "Resize T al v n = Throws e v'"
  proof (cases "n \<le> length xs")
    case True
    with Resize_vec(1) [OF True, of T al k] thr show ?thesis
      by (auto simp: v)
  next
    case False
    then have lt: "length xs < n"
      by simp
    show ?thesis
    proof (rule Reserve_cases [OF inv, of T al n])
      assume r: "Reserve T al v n = Ok v" "n \<le> capacity' (data' v)"
      then have le: "n \<le> length xs + k"
        by (simp add: v)
      from Resize_vec(2) [OF lt r(1) [unfolded v] le] thr fit lt le show ?thesis
        by (auto simp: v split: option.splits)
    next
      assume r: "capacity' (data' v) < n" "Reserve T al v n = Ok (vec (elements v) (n - size' v))"
      have "n \<le> length xs + (n - length xs)"
        by simp
      from Resize_vec(2) [OF lt r(2) [unfolded v, simplified] this] thr n lt show ?thesis
        by (auto simp: v split: option.splits)
    next
      fix e' zs
      assume z: "length zs = size' v"
        and r: "Reserve T al v n = Throws e' (vec zs (capacity' (data' v) - size' v))"
      from Resize_vec(3) [OF lt r [unfolded v]] thr z fit show ?thesis
        by (auto simp: v)
    qed
  qed
  show "vector_inv v'" if pos: "pos < Size v" and thr: "Erase T v pos = Throws e v'"
  proof -
    from pos have xs: "xs = take pos xs @ xs ! pos # drop (Suc pos) xs"
      and lp: "length (take pos xs) = pos"
      by (simp_all add: v id_take_nth_drop)
    from Erase_vec [of T "take pos xs" "xs ! pos" "drop (Suc pos) xs" k] thr fit
    show ?thesis
      unfolding lp xs [symmetric] v by auto
  qed
  show "vector_inv v'"
    if r: "vector_inv r" "Size r \<le> Capacity v" and thr: "AllocateOnCapacity T v r = Throws e v'"
  proof -
    from r(1) obtain ys j where rv: "r = vec ys j"
      by (rule vector_inv_vecE)
    have "length ys \<le> length xs + k"
      using r(2) by (simp add: v rv)
    from AllocateOnCapacity_vec [OF this, of T j] thr fit show ?thesis
      by (auto simp: v rv)
  qed
  show "vector_inv v'"
    if full: "Size v = Capacity v" and pos: "pos \<le> Size v" and dbl: "2 * Size v \<le> SIZE_MAX"
      and thr: "Emplace T al v pos mk = Throws e v'"
  proof -
    from full have k: "k = 0"
      by (simp add: v)
    have E: "Emplace T al v pos mk = Realocate T al v pos mk"
      using pos by (simp add: Emplace_def v k)
    show ?thesis
    proof (cases mk)
      case None
      have "Realocate T al v pos None = Throws e v'"
        using thr E None by simp
      then have "v' = v"
        by (auto simp: Realocate_None split: option.splits if_splits)
      with inv show ?thesis
        by simp
    next
      case (Some x)
      define pre post where "pre = take pos xs" and "post = drop pos xs"
      have xs: "xs = pre @ post" and lp: "length pre = pos"
        using pos by (simp_all add: pre_def post_def v)
      let ?N = "if length (pre @ post) = 0 then 1 else 2 * length (pre @ post)"
      have d: "2 * length (pre @ post) \<le> SIZE_MAX"
        using dbl by (simp add: v flip: xs)
      have N0: "?N \<noteq> 0"
        by simp
      show ?thesis
      proof (cases "al ?N")
        case True
        have "Realocate T al (vec (pre @ post) 0) (length pre) (Some x) = Throws e v'"
          using thr E by (simp add: Some v k xs lp)
        with Realocate_vec [of pre post al T x, OF d True] fit
        show ?thesis
          by (auto simp: v k xs)
      next
        case False
        have c: "(if size' v = 0 then 1 else size_t (size' v * 2)) = ?N"
          using d by (auto simp: v xs size_t_id mult.commute)
        have "Realocate T al v pos mk = Throws BadAlloc v"
          unfolding Realocate_def c using False N0
          by (simp add: RawMemory_sized_def Allocate_def)
        with thr inv show ?thesis
          unfolding E by simp
      qed
    qed
  qed
qed

text \<open>
  An exception of the insertion without reallocation either leaves the vector as it was
  (the constructor of the new element or the move constructor threw), or comes from a move
  assignment and leaves \<open>size_\<close> as it was with a live object in slot \<open>size_\<close>, against the
  invariant.
\<close>

lemma Emplace_in_place_exception:
  fixes v :: "'a vector"
  assumes inv: "vector_inv v" and spare: "Size v < Capacity v" and pos: "pos \<le> Size v"
    and thr: "Emplace T al v pos mk = Throws e v'"
  shows "v' = v \<or>
         (pos < Size v \<and> (\<exists>a b. move_assign_throws T a b) \<and> Size v' = Size v \<and>
          Capacity v' = Capacity v \<and> list_all is_live (take (Suc (Size v')) (slots v')) \<and>
          \<not> vector_inv v')"
proof -
  from inv obtain xs k where v: "v = vec xs k" and fit: "length xs + k \<le> SIZE_MAX"
    by (rule vector_inv_vecE)
  from spare obtain k' where k: "k = Suc k'"
    by (cases k) (auto simp: v)
  show ?thesis
  proof (cases mk)
    case None
    with thr pos spare show ?thesis
      by (simp add: Emplace_None_in_place Size_def Capacity_def)
  next
    case (Some x)
    show ?thesis
    proof (cases "pos = length xs")
      case True
      with Emplace_end_vec [of xs k' T al x] fit thr show ?thesis
        by (simp add: v k Some)
    next
      case False
      with pos have lt: "pos < length xs"
        by (simp add: v)
      define pre post where "pre = take pos xs" and "post = drop pos xs"
      have xs: "xs = pre @ post" and lp: "length pre = pos"
        using pos by (simp_all add: pre_def post_def v)
      from lt obtain mid bk where post: "post = mid @ [bk]"
        by (cases post rule: rev_cases) (auto simp: post_def)
      have fit': "length (pre @ mid @ [bk]) + Suc k' \<le> SIZE_MAX"
        using fit by (simp add: xs post k)
      have thr': "Emplace T al (vec (pre @ mid @ [bk]) (Suc k')) (length pre) (Some x) = Throws e v'"
        using thr by (simp add: v k xs post lp Some)
      from Emplace_shift_vec [OF fit', of T al x] thr'
      consider "v' = vec (pre @ mid @ [bk]) (Suc k')"
        | zs where "\<exists>a b. move_assign_throws T a b" "length zs = Suc (length (pre @ mid @ [bk]))"
            "v' = with_slots (vec (pre @ mid @ [bk]) (Suc k')) (map Live zs @ replicate k' Raw)"
        by auto
      then show ?thesis
      proof cases
        case 1
        then show ?thesis
          by (simp add: v k xs post)
      next
        case 2
        have "\<not> vector_inv v'"
          unfolding 2(3) using 2(2) by (rule one_live_too_many)
        moreover have "Size v' = Size v" "Capacity v' = Capacity v"
          by (simp_all add: 2(3) v k xs post Size_def Capacity_def with_slots_def vec_def)
        moreover have "list_all is_live (take (Suc (Size v')) (slots v'))"
          using 2(2)
          by (simp add: 2(3) Size_def with_slots_def slots_def vec_def list_all_iff)
        ultimately show ?thesis
          using lt 2(1) by (simp add: v Size_def)
      qed
    qed
  qed
qed

lemma store_inv_update: "store_inv st \<Longrightarrow> vector_inv v \<Longrightarrow> store_inv (st(a \<mapsto> v))"
  by (simp add: store_inv_def)

lemma store_invD: "store_inv st \<Longrightarrow> st a = Some v \<Longrightarrow> vector_inv v"
  by (simp add: store_inv_def)

text \<open>The constructors, \<open>Swap\<close> and the assignments keep the invariant on every object.\<close>

lemma store_inv_after:
  fixes st :: "'a store"
  assumes inv: "store_inv st"
  shows "new_default st a = Ok st' \<Longrightarrow> store_inv st'"
    and "n \<le> SIZE_MAX \<Longrightarrow> new_sized T al st a n = Ok st' \<Longrightarrow> store_inv st'"
    and "new_copy T al st a b = Ok st' \<Longrightarrow> store_inv st'"
    and "new_move st a b = Ok st' \<Longrightarrow> store_inv st'"
    and "swap_at st a b = Ok st' \<Longrightarrow> store_inv st'"
    and "assign_move st a b = Ok st' \<Longrightarrow> store_inv st'"
    and "assign_copy T al st a b = Ok st' \<Longrightarrow> store_inv st'"
    and "assign_copy T al st a b = Throws e st' \<Longrightarrow> store_inv st'"
proof -
  show "store_inv st'" if "new_default st a = Ok st'"
    using that inv
    by (auto simp: new_default_def Vector_default_vec SIZE_MAX_def intro!: store_inv_update
        split: option.splits)
  show "store_inv st'" if "n \<le> SIZE_MAX" "new_sized T al st a n = Ok st'"
    using that inv
    by (auto simp: new_sized_def Vector_sized_vec SIZE_MAX_def intro!: store_inv_update
        split: option.splits if_splits)
  show "store_inv st'" if "new_copy T al st a b = Ok st'"
    using that inv invariant_after_return(8) [of _ T al]
    by (auto simp: new_copy_def intro!: store_inv_update dest: store_invD
        split: option.splits outcome.splits)
  show "store_inv st'" if "new_move st a b = Ok st'"
    using that inv
    by (auto simp: new_move_def Vector_move_eq Vector_default_vec SIZE_MAX_def
        intro!: store_inv_update dest: store_invD split: option.splits)
  show sw: "store_inv st'" if "swap_at st a b = Ok st'" for a b st'
    using that inv
    by (auto simp: swap_at_def Swap_eq intro!: store_inv_update dest: store_invD
        split: option.splits)
  show "store_inv st'" if "assign_move st a b = Ok st'"
    using that inv sw [of a b st']
    by (auto simp: assign_move_def split: option.splits if_splits)
  have ac: "store_inv st'"
    if r: "assign_copy T al st a b = Ok st' \<or> assign_copy T al st a b = Throws e st'" for e st'
  proof -
    from r obtain v rv where s: "st a = Some v" "st b = Some rv"
      by (auto simp: assign_copy_def split: option.splits)
    show ?thesis
    proof (cases "a = b")
      case True
      with r s inv show ?thesis
        by (auto simp: assign_copy_def)
    next
      case False
      from s inv have iv: "vector_inv v" "vector_inv rv"
        by (auto dest: store_invD)
      from iv(1) obtain xs k where v: "v = vec xs k" and fit: "length xs + k \<le> SIZE_MAX"
        by (rule vector_inv_vecE)
      from iv(2) obtain ys j where rv: "rv = vec ys j" and fitr: "length ys + j \<le> SIZE_MAX"
        by (rule vector_inv_vecE)
      show ?thesis
      proof (cases "length xs + k < length ys")
        case True
        from assign_copy_big [OF s(1) [unfolded v] s(2) [unfolded rv] False True, of T al] r inv fitr
        show ?thesis
          by (auto intro!: store_inv_update split: if_splits)
      next
        case small: False
        then have le: "length ys \<le> length xs + k"
          by simp
        have "size' rv \<le> capacity' (data' v)"
          using le by (simp add: v rv)
        from assign_copy_small [OF s False this, of T al]
          AllocateOnCapacity_vec [OF le, of T j] r inv fit le
        show ?thesis
          by (auto simp: v rv intro!: store_inv_update)
      qed
    qed
  qed
  show "store_inv st'" if "assign_copy T al st a b = Ok st'"
    using ac that by blast
  show "store_inv st'" if "assign_copy T al st a b = Throws e st'"
    using ac that by blast
qed

section \<open>The scenario of the specification\<close>

text \<open>
  The scenario of the specification: three appends to the empty vector give \<open>[1, 2, 3]\<close>,
  \<open>Insert\<close> of 9 at index 1 gives \<open>[1, 9, 2, 3]\<close>, \<open>Erase\<close> at index 0 gives \<open>[9, 2, 3]\<close>, and
  \<open>PopBack\<close> gives \<open>[9, 2]\<close> with size 2.
\<close>

lemma scenario:
  "EmplaceBack T_value always Vector_default (Some 1) = Ok (vec [1] 0)"
  "EmplaceBack T_value always (vec [1] 0) (Some 2) = Ok (vec [1, 2] 0)"
  "EmplaceBack T_value always (vec [1, 2] 0) (Some 3) = Ok (vec [1, 2, 3] 1)"
  "Insert_copy T_value always (vec [1, 2, 3] 1) 1 9 = Ok (vec [1, 9, 2, 3] 0)"
  "Erase T_value (vec [1, 9, 2, 3] 0) 0 = Ok (vec [9, 2, 3] 1)"
  "PopBack (vec [9, 2, 3 :: nat] 1) = Ok (vec [9, 2] 2)"
  "elements (vec [9, 2 :: nat] 2) = [9, 2]" "Size (vec [9, 2 :: nat] 2) = 2"
proof -
  show "EmplaceBack T_value always Vector_default (Some 1) = Ok (vec [1] 0)"
    using Emplace_full_vec [of T_value "[]" "[]" always 1]
    by (simp add: EmplaceBack_def Vector_default_vec always_def small_fits nothrow_T_value)
  show "EmplaceBack T_value always (vec [1] 0) (Some 2) = Ok (vec [1, 2] 0)"
    using Emplace_full_vec [of T_value "[1]" "[]" always 2]
    by (simp add: EmplaceBack_def always_def small_fits nothrow_T_value)
  show "EmplaceBack T_value always (vec [1, 2] 0) (Some 3) = Ok (vec [1, 2, 3] 1)"
    using Emplace_full_vec [of T_value "[1, 2]" "[]" always 3]
    by (simp add: EmplaceBack_def always_def small_fits nothrow_T_value)
  have c: "copy_construct T_value 9 = Some 9"
    by (simp add: copy_construct_def T_value_def)
  show "Insert_copy T_value always (vec [1, 2, 3] 1) 1 9 = Ok (vec [1, 9, 2, 3] 0)"
    using Emplace_shift_nothrow_vec [of T_value "[1]" "[2]" 3 0 always 9]
    by (simp add: Insert_copy_def c small_fits nothrow_T_value)
  show "Erase T_value (vec [1, 9, 2, 3] 0) 0 = Ok (vec [9, 2, 3] 1)"
    using Erase_nothrow_vec [of T_value "[]" 1 "[9, 2, 3]" 0] nothrowD(4) [OF nothrow_T_value]
    by simp
  show "PopBack (vec [9, 2, 3 :: nat] 1) = Ok (vec [9, 2] 2)"
    using PopBack_vec [of "[9, 2 :: nat]" 3 1] by (simp add: numeral_2_eq_2)
  show "elements (vec [9, 2 :: nat] 2) = [9, 2]" "Size (vec [9, 2 :: nat] 2) = 2"
    by simp_all
qed

end
